theory Spec2Isabelle
  imports Complex_Main
begin

unbundle bit_operations_syntax

section \<open>JavaScript strings and numbers\<close>

text \<open>
  A JavaScript string is a sequence of UTF-16 code units.  A code unit is modelled as a
  natural number; a string of the program is a list whose elements are below \<open>2^16\<close>
  (\<open>js_string\<close>).  \<open>js\<close> turns an ASCII literal into such a list.
\<close>

type_synonym jsstring = "nat list"

definition js_string :: "jsstring \<Rightarrow> bool" where
  "js_string s = list_all (\<lambda>c. c < 65536) s"

definition js :: "string \<Rightarrow> jsstring" where
  "js s = map of_char s"

text \<open>
  \<open>ToInt32\<close> and \<open>ToUint32\<close> of ECMAScript on integral values; every intermediate value of
  \<open>checksum\<close> is an integer of magnitude below \<open>2^53\<close>, where the arithmetic of doubles is
  exact.
\<close>

definition ToUint32 :: "int \<Rightarrow> int" where
  "ToUint32 x = x mod 2 ^ 32"

definition ToInt32 :: "int \<Rightarrow> int" where
  "ToInt32 x = (let m = x mod 2 ^ 32 in if m \<ge> 2 ^ 31 then m - 2 ^ 32 else m)"

text \<open>\<open>a << n\<close>, \<open>a | b\<close> and \<open>a >>> n\<close>.\<close>

definition js_shl :: "int \<Rightarrow> int \<Rightarrow> int" where
  "js_shl a n = ToInt32 (push_bit (nat (ToUint32 n mod 32)) (ToInt32 a))"

definition js_bitor :: "int \<Rightarrow> int \<Rightarrow> int" where
  "js_bitor a b = ToInt32 (ToInt32 a OR ToInt32 b)"

definition js_ushr :: "int \<Rightarrow> int \<Rightarrow> int" where
  "js_ushr a n = drop_bit (nat (ToUint32 n mod 32)) (ToUint32 a)"

text \<open>The digit characters of \<open>Number.prototype.toString(16)\<close>: \<open>0-9\<close>, then \<open>a-f\<close>.\<close>

definition hex_digit_lower :: "nat \<Rightarrow> nat" where
  "hex_digit_lower d = (if d < 10 then 48 + d else 87 + d)"

fun toString16 :: "nat \<Rightarrow> jsstring" where
  "toString16 n =
     (if n < 16 then [hex_digit_lower n]
      else toString16 (n div 16) @ [hex_digit_lower (n mod 16)])"

declare toString16.simps [simp del]

section \<open>utils.js: checksum\<close>

text \<open>
  \<^verbatim>\<open>
  export function checksum(str) {
      let h = 0;
      for (let i = 0; i < str.length; i++) {
          h = ((h << 5) - h + str.charCodeAt(i)) | 0;
      }
      return (h >>> 0).toString(16);
  }
  \<close>
\<close>

fun checksum_loop :: "int \<Rightarrow> jsstring \<Rightarrow> int" where
  "checksum_loop h [] = h"
| "checksum_loop h (c # cs) = checksum_loop (js_bitor (js_shl h 5 - h + int c) 0) cs"

definition checksum :: "jsstring \<Rightarrow> jsstring" where
  "checksum str = toString16 (nat (js_ushr (checksum_loop 0 str) 0))"

text \<open>
  The hash as the specification words it: \<open>h := (h * 31 + charCode) mod 2^32\<close> folded over
  the characters, seeded at 0.
\<close>

definition rolling_hash :: "jsstring \<Rightarrow> nat" where
  "rolling_hash s = foldl (\<lambda>h c. (h * 31 + c) mod 2 ^ 32) 0 s"

text \<open>Reading a lowercase hexadecimal numeral back.\<close>

definition is_lower_hex :: "nat \<Rightarrow> bool" where
  "is_lower_hex c = ((48 \<le> c \<and> c \<le> 57) \<or> (97 \<le> c \<and> c \<le> 102))"

definition lower_hex_value :: "jsstring \<Rightarrow> nat" where
  "lower_hex_value s = foldl (\<lambda>v c. 16 * v + (if c \<le> 57 then c - 48 else c - 87)) 0 s"

section \<open>Properties of checksum\<close>

lemma ToInt32_mod: "ToInt32 x mod 4294967296 = x mod 4294967296"
  by (simp add: ToInt32_def Let_def)

lemma ToInt32_range: "- 2147483648 \<le> ToInt32 x \<and> ToInt32 x < 2147483648"
proof -
  have "0 \<le> x mod 4294967296" "x mod 4294967296 < 4294967296" by simp_all
  then show ?thesis unfolding ToInt32_def Let_def by auto
qed

lemma ToInt32_idem: "ToInt32 (ToInt32 a) = ToInt32 a"
  unfolding ToInt32_def [of "ToInt32 a"] Let_def ToInt32_mod [simplified]
  by (simp add: ToInt32_mod) (simp add: ToInt32_def Let_def)

lemma js_bitor_zero: "js_bitor a 0 = ToInt32 a"
proof -
  have "ToInt32 0 = 0" by (simp add: ToInt32_def)
  then show ?thesis by (simp add: js_bitor_def ToInt32_idem)
qed

lemma js_shl_5: "js_shl h 5 = ToInt32 (32 * ToInt32 h)"
  by (simp add: js_shl_def ToUint32_def push_bit_eq_mult mult.commute)

lemma js_ushr_zero: "js_ushr a 0 = a mod 4294967296"
  by (simp add: js_ushr_def ToUint32_def)

lemma checksum_step_mod:
  "js_bitor (js_shl h 5 - h + int c) 0 mod 4294967296 = (h * 31 + int c) mod 4294967296"
proof -
  have "js_bitor (js_shl h 5 - h + int c) 0 mod 4294967296
      = (js_shl h 5 - h + int c) mod 4294967296"
    by (simp only: js_bitor_zero ToInt32_mod)
  also have "\<dots> = (js_shl h 5 mod 4294967296 - h + int c) mod 4294967296"
    by (metis mod_add_left_eq mod_diff_left_eq)
  also have "js_shl h 5 mod 4294967296 = (32 * h) mod 4294967296"
    by (metis js_shl_5 ToInt32_mod mod_mult_right_eq)
  also have "((32 * h) mod 4294967296 - h + int c) mod 4294967296
      = (32 * h - h + int c) mod 4294967296"
    by (metis mod_add_left_eq mod_diff_left_eq)
  also have "32 * h - h + int c = h * 31 + int c"
    by simp
  finally show ?thesis .
qed

lemma checksum_loop_mod:
  "h mod 4294967296 = int g \<Longrightarrow>
   checksum_loop h s mod 4294967296 = int (foldl (\<lambda>h c. (h * 31 + c) mod 4294967296) g s)"
proof (induction s arbitrary: h g)
  case Nil
  then show ?case by simp
next
  case (Cons c cs)
  have "js_bitor (js_shl h 5 - h + int c) 0 mod 4294967296 = (h * 31 + int c) mod 4294967296"
    by (rule checksum_step_mod)
  also have "\<dots> = ((h mod 4294967296) * 31 + int c) mod 4294967296"
    by (metis mod_add_left_eq mod_mult_left_eq)
  also have "\<dots> = int ((g * 31 + c) mod 4294967296)"
    by (simp add: Cons.prems zmod_int)
  finally show ?case
    using Cons.IH by simp
qed

lemma toString16_lower_hex: "list_all is_lower_hex (toString16 n)"
proof (induction n rule: toString16.induct)
  case (1 n)
  show ?case
  proof (cases "n < 16")
    case True
    then show ?thesis
      by (subst toString16.simps) (simp add: hex_digit_lower_def is_lower_hex_def)
  next
    case False
    have "n mod 16 < 16" by simp
    then have "is_lower_hex (hex_digit_lower (n mod 16))"
      unfolding hex_digit_lower_def is_lower_hex_def by presburger
    with False 1 show ?thesis
      by (subst toString16.simps) simp
  qed
qed

lemma lower_hex_value_snoc:
  "lower_hex_value (s @ [c]) = 16 * lower_hex_value s + (if c \<le> 57 then c - 48 else c - 87)"
  by (simp add: lower_hex_value_def)

lemma hex_digit_lower_value:
  "d < 16 \<Longrightarrow> (if hex_digit_lower d \<le> 57 then hex_digit_lower d - 48 else hex_digit_lower d - 87) = d"
  by (simp add: hex_digit_lower_def)

lemma lower_hex_value_toString16: "lower_hex_value (toString16 n) = n"
proof (induction n rule: toString16.induct)
  case (1 n)
  show ?case
  proof (cases "n < 16")
    case True
    then show ?thesis
      by (subst toString16.simps) (simp add: lower_hex_value_def hex_digit_lower_value)
  next
    case False
    have "lower_hex_value (toString16 n)
        = 16 * lower_hex_value (toString16 (n div 16)) + n mod 16"
      using False
      by (subst toString16.simps) (simp add: lower_hex_value_snoc hex_digit_lower_value)
    with False 1 show ?thesis by simp
  qed
qed

text \<open>
  C2.  For every string, \<open>checksum\<close> is the rolling hash \<open>h := (h * 31 + charCode) mod 2^32\<close>
  folded from 0 over the characters, written in lowercase hexadecimal: the result is the
  base-16 numeral of the hash, made of the digits \<open>0-9a-f\<close> only, and reads back as the hash.
\<close>

theorem checksum_is_rolling_hash:
  "checksum s = toString16 (rolling_hash s)
   \<and> list_all is_lower_hex (checksum s)
   \<and> lower_hex_value (checksum s) = rolling_hash s"
proof -
  have "checksum_loop 0 s mod 4294967296 = int (rolling_hash s)"
    using checksum_loop_mod [of 0 0 s] by (simp add: rolling_hash_def)
  then have "checksum s = toString16 (rolling_hash s)"
    by (simp add: checksum_def js_ushr_zero)
  then show ?thesis
    by (simp add: toString16_lower_hex lower_hex_value_toString16)
qed


text \<open>Two values, the second after the accumulator has wrapped around.\<close>

lemma checksum_example_abc: "checksum (js ''abc'') = js ''17862''"
  by (simp add: checksum_def js_def js_bitor_zero js_shl_5 ToInt32_def js_ushr_zero
      toString16.simps hex_digit_lower_def)

lemma checksum_example_wraps: "checksum (js ''zzzzzzzz'') = js ''8e275d00''"
  by (simp add: checksum_def js_def js_bitor_zero js_shl_5 ToInt32_def js_ushr_zero
      toString16.simps hex_digit_lower_def)

section \<open>Built-in functions used by the signalling codec\<close>

text \<open>
  \<open>encodeSDP\<close> and \<open>decodeSDP\<close> are compositions of eight built-in functions.  Each is
  modelled after its specification: \<open>JSON.stringify\<close>, \<open>JSON.parse\<close>,
  \<open>encodeURIComponent\<close>, \<open>decodeURIComponent\<close>, \<open>escape\<close> and \<open>unescape\<close> after ECMA-262
  (2019 and later, where \<open>JSON.stringify\<close> escapes lone surrogates), \<open>btoa\<close> and \<open>atob\<close>
  after the HTML standard (forgiving-base64).  The exceptions they throw are values of
  \<open>js_error\<close>.
\<close>

datatype js_error =
    URIError
  | InvalidCharacterError
  | SyntaxError
  | TypeError
  | Error jsstring

definition is_hex_digit :: "nat \<Rightarrow> bool" where
  "is_hex_digit c = ((48 \<le> c \<and> c \<le> 57) \<or> (65 \<le> c \<and> c \<le> 70) \<or> (97 \<le> c \<and> c \<le> 102))"

definition hex_digit_value :: "nat \<Rightarrow> nat" where
  "hex_digit_value c = (if c \<le> 57 then c - 48 else if c \<le> 70 then c - 55 else c - 87)"

definition hex_digit_upper :: "nat \<Rightarrow> nat" where
  "hex_digit_upper d = (if d < 10 then 48 + d else 55 + d)"

definition hex_value :: "jsstring \<Rightarrow> nat" where
  "hex_value s = foldl (\<lambda>v c. 16 * v + hex_digit_value c) 0 s"

definition is_high_surrogate :: "nat \<Rightarrow> bool" where
  "is_high_surrogate c = (55296 \<le> c \<and> c \<le> 56319)"

definition is_low_surrogate :: "nat \<Rightarrow> bool" where
  "is_low_surrogate c = (56320 \<le> c \<and> c \<le> 57343)"

text \<open>\<open>UTF16SurrogatePairToCodePoint\<close> and \<open>UTF16EncodeCodePoint\<close>.\<close>

definition surrogate_pair_to_code_point :: "nat \<Rightarrow> nat \<Rightarrow> nat" where
  "surrogate_pair_to_code_point lead trail = (lead - 55296) * 1024 + (trail - 56320) + 65536"

definition utf16_encode_code_point :: "nat \<Rightarrow> jsstring" where
  "utf16_encode_code_point cp =
     (if cp \<le> 65535 then [cp]
      else [(cp - 65536) div 1024 + 55296, (cp - 65536) mod 1024 + 56320])"

text \<open>The UTF-8 octets of a code point.\<close>

definition utf8_octets :: "nat \<Rightarrow> nat list" where
  "utf8_octets cp =
     (if cp < 128 then [cp]
      else if cp < 2048 then [192 + cp div 64, 128 + cp mod 64]
      else if cp < 65536 then [224 + cp div 4096, 128 + (cp div 64) mod 64, 128 + cp mod 64]
      else [240 + cp div 262144, 128 + (cp div 4096) mod 64, 128 + (cp div 64) mod 64,
            128 + cp mod 64])"

definition percent_octet :: "nat \<Rightarrow> jsstring" where
  "percent_octet b = [37, hex_digit_upper (b div 16), hex_digit_upper (b mod 16)]"

subsection \<open>encodeURIComponent\<close>

text \<open>
  The unreserved set of \<open>encodeURIComponent\<close>: letters, digits and \<open>- _ . ! ~ * ' ( )\<close>.
\<close>

definition is_alpha_num :: "nat \<Rightarrow> bool" where
  "is_alpha_num c = ((48 \<le> c \<and> c \<le> 57) \<or> (65 \<le> c \<and> c \<le> 90) \<or> (97 \<le> c \<and> c \<le> 122))"

definition uri_unreserved :: "nat \<Rightarrow> bool" where
  "uri_unreserved c = (is_alpha_num c \<or> c \<in> set [45, 95, 46, 33, 126, 42, 39, 40, 41])"

text \<open>
  The abstract operation \<open>Encode\<close>: an unreserved code unit is copied; otherwise the code
  point at the position is read (\<open>CodePointAt\<close>), an unpaired surrogate throws \<open>URIError\<close>,
  and each UTF-8 octet of the code point is written as \<open>%XX\<close>.
\<close>

fun encodeURIComponent :: "jsstring \<Rightarrow> js_error + jsstring" where
  "encodeURIComponent [] = Inr []"
| "encodeURIComponent (c # cs) =
     (if uri_unreserved c then map_sum id ((#) c) (encodeURIComponent cs)
      else if is_low_surrogate c then Inl URIError
      else if is_high_surrogate c then
        (case cs of
           [] \<Rightarrow> Inl URIError
         | d # ds \<Rightarrow>
             if is_low_surrogate d
             then map_sum id ((@) (concat (map percent_octet
                    (utf8_octets (surrogate_pair_to_code_point c d))))) (encodeURIComponent ds)
             else Inl URIError)
      else map_sum id ((@) (concat (map percent_octet (utf8_octets c)))) (encodeURIComponent cs))"

subsection \<open>unescape and escape\<close>

text \<open>
  \<open>unescape\<close>: \<open>%uXXXX\<close> and \<open>%XX\<close> with hexadecimal digits become the code unit of that
  value; every other code unit is copied.
\<close>

fun unescape :: "jsstring \<Rightarrow> jsstring" where
  "unescape [] = []"
| "unescape (c # cs) =
     (if c = 37 \<and> 5 \<le> length cs \<and> hd cs = 117 \<and> list_all is_hex_digit (take 4 (tl cs))
      then hex_value (take 4 (tl cs)) # unescape (drop 5 cs)
      else if c = 37 \<and> 2 \<le> length cs \<and> list_all is_hex_digit (take 2 cs)
      then hex_value (take 2 cs) # unescape (drop 2 cs)
      else c # unescape cs)"

text \<open>The set \<open>escape\<close> leaves alone: letters, digits and \<open>@ * _ + - . /\<close>.\<close>

definition escape_unescaped :: "nat \<Rightarrow> bool" where
  "escape_unescaped c = (is_alpha_num c \<or> c \<in> set [64, 42, 95, 43, 45, 46, 47])"

definition escape_unit :: "nat \<Rightarrow> jsstring" where
  "escape_unit c =
     (if escape_unescaped c then [c]
      else if c < 256 then percent_octet c
      else [37, 117, hex_digit_upper (c div 4096), hex_digit_upper ((c div 256) mod 16),
            hex_digit_upper ((c div 16) mod 16), hex_digit_upper (c mod 16)])"

definition escape :: "jsstring \<Rightarrow> jsstring" where
  "escape s = concat (map escape_unit s)"

subsection \<open>decodeURIComponent\<close>

text \<open>
  The number of leading 1 bits of an octet, as far as \<open>Decode\<close> distinguishes them
  (5 stands for "more than 4").
\<close>

definition leading_ones :: "nat \<Rightarrow> nat" where
  "leading_ones b =
     (if b < 128 then 0 else if b < 192 then 1 else if b < 224 then 2
      else if b < 240 then 3 else if b < 248 then 4 else 5)"

text \<open>
  The \<open>n - 1\<close> continuation groups \<open>%XX\<close> that follow the first octet: \<open>None\<close> when a group
  does not start with \<open>%\<close> or its digits are not hexadecimal.
\<close>

fun continuation_octets :: "nat \<Rightarrow> jsstring \<Rightarrow> nat list option" where
  "continuation_octets 0 s = Some []"
| "continuation_octets (Suc n) s =
     (case s of
        p # a # b # r \<Rightarrow>
          if p = 37 \<and> is_hex_digit a \<and> is_hex_digit b
          then map_option ((#) (hex_value [a, b])) (continuation_octets n r)
          else None
      | _ \<Rightarrow> None)"

text \<open>
  The code point of a well-formed UTF-8 sequence of 2 to 4 octets: continuation octets in
  \<open>80..BF\<close>, no overlong form, no surrogate, at most \<open>10FFFF\<close>.
\<close>

definition utf8_code_point :: "nat list \<Rightarrow> nat option" where
  "utf8_code_point octets =
     (let n = length octets;
          b = hd octets;
          cp = foldl (\<lambda>v c. v * 64 + (c - 128))
                 (if n = 2 then b - 192 else if n = 3 then b - 224 else b - 240) (tl octets);
          lo = (if n = 2 then 128 else if n = 3 then 2048 else 65536)
      in if list_all (\<lambda>c. 128 \<le> c \<and> c < 192) (tl octets)
            \<and> lo \<le> cp \<and> cp \<le> 1114111 \<and> \<not> (55296 \<le> cp \<and> cp \<le> 57343)
         then Some cp else None)"

fun decodeURIComponent :: "jsstring \<Rightarrow> js_error + jsstring" where
  "decodeURIComponent [] = Inr []"
| "decodeURIComponent (c # cs) =
     (if c \<noteq> 37 then map_sum id ((#) c) (decodeURIComponent cs)
      else if length cs < 2 \<or> \<not> list_all is_hex_digit (take 2 cs) then Inl URIError
      else
        let b = hex_value (take 2 cs); n = leading_ones b in
        if n = 0 then map_sum id ((#) b) (decodeURIComponent (drop 2 cs))
        else if n = 1 \<or> n > 4 then Inl URIError
        else if length (drop 2 cs) < 3 * (n - 1) then Inl URIError
        else
          (case continuation_octets (n - 1) (drop 2 cs) of
             None \<Rightarrow> Inl URIError
           | Some more \<Rightarrow>
               (case utf8_code_point (b # more) of
                  None \<Rightarrow> Inl URIError
                | Some v \<Rightarrow>
                    map_sum id ((@) (utf16_encode_code_point v))
                      (decodeURIComponent (drop (3 * (n - 1)) (drop 2 cs))))))"

subsection \<open>btoa and atob\<close>

text \<open>The base64 alphabet: \<open>A-Z a-z 0-9 + /\<close>.\<close>

definition base64_char :: "nat \<Rightarrow> nat" where
  "base64_char i =
     (if i < 26 then 65 + i else if i < 52 then 71 + i else if i < 62 then i - 4
      else if i = 62 then 43 else 47)"

definition is_base64_char :: "nat \<Rightarrow> bool" where
  "is_base64_char c = (is_alpha_num c \<or> c = 43 \<or> c = 47)"

definition base64_value :: "nat \<Rightarrow> nat" where
  "base64_value c =
     (if 65 \<le> c \<and> c \<le> 90 then c - 65 else if 97 \<le> c \<and> c \<le> 122 then c - 71
      else if 48 \<le> c \<and> c \<le> 57 then c + 4 else if c = 43 then 62 else 63)"

fun base64_encode :: "nat list \<Rightarrow> jsstring" where
  "base64_encode (a # b # c # r) =
     [base64_char (a div 4), base64_char ((a mod 4) * 16 + b div 16),
      base64_char ((b mod 16) * 4 + c div 64), base64_char (c mod 64)] @ base64_encode r"
| "base64_encode [a, b] =
     [base64_char (a div 4), base64_char ((a mod 4) * 16 + b div 16),
      base64_char ((b mod 16) * 4), 61]"
| "base64_encode [a] = [base64_char (a div 4), base64_char ((a mod 4) * 16), 61, 61]"
| "base64_encode [] = []"

text \<open>\<open>btoa\<close> throws when a code unit is above \<open>0xFF\<close>.\<close>

definition btoa :: "jsstring \<Rightarrow> js_error + jsstring" where
  "btoa s = (if list_all (\<lambda>c. c \<le> 255) s then Inr (base64_encode s)
             else Inl InvalidCharacterError)"

text \<open>
  Forgiving-base64 decode: ASCII whitespace is removed; when the length is a multiple of 4,
  one or two trailing \<open>=\<close> are removed; a length that leaves remainder 1 and a character
  outside the alphabet are failures; each group of four sextets gives three octets, and a
  final group of two or three gives one or two, the spare bits discarded.
\<close>

definition is_ascii_whitespace :: "nat \<Rightarrow> bool" where
  "is_ascii_whitespace c = (c \<in> set [9, 10, 12, 13, 32])"

definition strip_padding :: "jsstring \<Rightarrow> jsstring" where
  "strip_padding d =
     (if length d mod 4 = 0 \<and> d \<noteq> [] \<and> last d = 61
      then (if butlast d \<noteq> [] \<and> last (butlast d) = 61 then butlast (butlast d) else butlast d)
      else d)"

fun sextets_to_octets :: "nat list \<Rightarrow> nat list" where
  "sextets_to_octets (a # b # c # d # r) =
     [a * 4 + b div 16, (b mod 16) * 16 + c div 4, (c mod 4) * 64 + d] @ sextets_to_octets r"
| "sextets_to_octets [a, b, c] = [a * 4 + b div 16, (b mod 16) * 16 + c div 4]"
| "sextets_to_octets [a, b] = [a * 4 + b div 16]"
| "sextets_to_octets _ = []"

definition atob :: "jsstring \<Rightarrow> js_error + jsstring" where
  "atob s =
     (let d = strip_padding (filter (\<lambda>c. \<not> is_ascii_whitespace c) s) in
      if length d mod 4 = 1 then Inl InvalidCharacterError
      else if \<not> list_all is_base64_char d then Inl InvalidCharacterError
      else Inr (sextets_to_octets (map base64_value d)))"


section \<open>JSON\<close>

text \<open>
  A number of the language is an IEEE 754 double.  \<open>Finite r\<close> is the finite double of value
  \<open>r\<close>, zero being \<open>+0\<close>; \<open>NegZero\<close> is \<open>-0\<close>.  The result of an operation or of reading
  a literal is the exact result rounded to the nearest double, ties to even
  (\<open>to_double\<close>, from a sign and a magnitude): the magnitude \<open>a\<close> lies in the binade
  \<open>2^e \<le> a < 2^(e+1)\<close>, where doubles are \<open>2^(e-52)\<close> apart, the exponent not going below
  \<open>-1022\<close> (subnormal numbers); a result of \<open>2^1024\<close> or more is an infinity.
\<close>

datatype jsnum = Finite rat | NegZero | NaN | PosInfinity | NegInfinity

text \<open>The number of binary digits of a natural number.\<close>

fun bit_length :: "nat \<Rightarrow> nat" where
  "bit_length n = (if n = 0 then 0 else Suc (bit_length (n div 2)))"

declare bit_length.simps [simp del]

text \<open>
  \<open>\<lfloor>log\<^sub>2 a\<rfloor>\<close> for a positive rational \<open>a = p / q\<close>: the difference of the bit lengths of
  \<open>p\<close> and \<open>q\<close>, or one less.
\<close>

definition floor_log2 :: "rat \<Rightarrow> int" where
  "floor_log2 a =
     (let (p, q) = quotient_of a;
          d = int (bit_length (nat p)) - int (bit_length (nat q))
      in if 2 powi d \<le> a then d else d - 1)"

definition round_half_even :: "rat \<Rightarrow> int" where
  "round_half_even x =
     (let f = \<lfloor>x\<rfloor>; d = x - of_int f
      in if d < 1 / 2 then f else if 1 / 2 < d then f + 1 else if even f then f else f + 1)"

definition to_double :: "bool \<Rightarrow> rat \<Rightarrow> jsnum" where
  "to_double negative a =
     (let e = max (floor_log2 a) (- 1022);
          ulp = 2 powi (e - 52);
          m = of_int (round_half_even (a / ulp)) * ulp
      in if m = 0 then (if negative then NegZero else Finite 0)
         else if 2 ^ 1024 \<le> m then (if negative then NegInfinity else PosInfinity)
         else Finite (if negative then - m else m))"

definition round_double :: "rat \<Rightarrow> jsnum" where
  "round_double r = to_double (r < 0) \<bar>r\<bar>"

text \<open>
  The values of the language that the program handles.  An object is the list of its own
  properties in creation order, each key once (the language lists keys that are array
  indices first; nothing here depends on the order).
\<close>

datatype jsvalue =
    JUndefined
  | JNull
  | JBool bool
  | JNum jsnum
  | JStr jsstring
  | JArr "jsvalue list"
  | JObj "(jsstring \<times> jsvalue) list"

text \<open>\<open>CreateDataProperty\<close>: a new key goes last, an existing key keeps its place.\<close>

fun obj_put :: "(jsstring \<times> jsvalue) list \<Rightarrow> jsstring \<Rightarrow> jsvalue \<Rightarrow> (jsstring \<times> jsvalue) list" where
  "obj_put [] k v = [(k, v)]"
| "obj_put (p # ps) k v = (if fst p = k then (k, v) # ps else p # obj_put ps k v)"

text \<open>Reading a property: \<open>undefined\<close> when the object has no such key.\<close>

definition obj_get :: "(jsstring \<times> jsvalue) list \<Rightarrow> jsstring \<Rightarrow> jsvalue" where
  "obj_get ps k = (case map_of ps k of None \<Rightarrow> JUndefined | Some v \<Rightarrow> v)"

subsection \<open>JSON.stringify of a descriptor object\<close>

text \<open>
  \<open>UnicodeEscape\<close>: \<open>\u\<close> and four lowercase hexadecimal digits.
\<close>

definition unicode_escape :: "nat \<Rightarrow> jsstring" where
  "unicode_escape c =
     [92, 117, hex_digit_lower (c div 4096), hex_digit_lower ((c div 256) mod 16),
      hex_digit_lower ((c div 16) mod 16), hex_digit_lower (c mod 16)]"

text \<open>
  The loop of \<open>QuoteJSONString\<close> over the code points of the string: the two-character
  escapes of backspace, tab, line feed, form feed, carriage return, the double quote and the
  backslash; \<open>UnicodeEscape\<close> for the other control characters and for a surrogate that is
  not part of a pair; every other code point as it is.
\<close>

fun quote_json_chars :: "jsstring \<Rightarrow> jsstring" where
  "quote_json_chars [] = []"
| "quote_json_chars (c # cs) =
     (if c = 8 then [92, 98] @ quote_json_chars cs
      else if c = 9 then [92, 116] @ quote_json_chars cs
      else if c = 10 then [92, 110] @ quote_json_chars cs
      else if c = 12 then [92, 102] @ quote_json_chars cs
      else if c = 13 then [92, 114] @ quote_json_chars cs
      else if c = 34 then [92, 34] @ quote_json_chars cs
      else if c = 92 then [92, 92] @ quote_json_chars cs
      else if c < 32 then unicode_escape c @ quote_json_chars cs
      else if is_high_surrogate c then
        (case cs of
           [] \<Rightarrow> unicode_escape c
         | d # ds \<Rightarrow>
             if is_low_surrogate d then c # d # quote_json_chars ds
             else unicode_escape c @ quote_json_chars cs)
      else if is_low_surrogate c then unicode_escape c @ quote_json_chars cs
      else c # quote_json_chars cs)"

definition QuoteJSONString :: "jsstring \<Rightarrow> jsstring" where
  "QuoteJSONString s = [34] @ quote_json_chars s @ [34]"

text \<open>
  \<open>JSON.stringify({ type: t, sdp: s })\<close> for two strings: the two properties in creation
  order, no gap.
\<close>

definition JSON_stringify_type_sdp :: "jsstring \<Rightarrow> jsstring \<Rightarrow> jsstring" where
  "JSON_stringify_type_sdp t s =
     js ''{'' @ QuoteJSONString (js ''type'') @ js '':'' @ QuoteJSONString t @ js '',''
       @ QuoteJSONString (js ''sdp'') @ js '':'' @ QuoteJSONString s @ js ''}''"

subsection \<open>JSON.parse\<close>

datatype json_token =
    TLBrace | TRBrace | TLBracket | TRBracket | TColon | TComma
  | TString jsstring | TNumber jsnum | TTrue | TFalse | TNull

definition json_escape :: "nat \<Rightarrow> nat option" where
  "json_escape e =
     (if e = 34 then Some 34 else if e = 92 then Some 92 else if e = 47 then Some 47
      else if e = 98 then Some 8 else if e = 102 then Some 12 else if e = 110 then Some 10
      else if e = 114 then Some 13 else if e = 116 then Some 9 else None)"

text \<open>
  The characters of a string literal after its opening quote, up to the closing quote: the
  string denoted and the text that follows.  A control character, an unknown escape and a
  missing closing quote are syntax errors (\<open>None\<close>).
\<close>

fun json_string_chars :: "jsstring \<Rightarrow> (jsstring \<times> jsstring) option" where
  "json_string_chars [] = None"
| "json_string_chars (c # cs) =
     (if c = 34 then Some ([], cs)
      else if c = 92 then
        (case cs of
           [] \<Rightarrow> None
         | e # es \<Rightarrow>
             if e = 117 then
               (if 4 \<le> length es \<and> list_all is_hex_digit (take 4 es)
                then map_option (apfst ((#) (hex_value (take 4 es))))
                       (json_string_chars (drop 4 es))
                else None)
             else
               (case json_escape e of
                  None \<Rightarrow> None
                | Some x \<Rightarrow> map_option (apfst ((#) x)) (json_string_chars es)))
      else if c < 32 then None
      else map_option (apfst ((#) c)) (json_string_chars cs))"

definition is_digit :: "nat \<Rightarrow> bool" where
  "is_digit c = (48 \<le> c \<and> c \<le> 57)"

definition digits_value :: "jsstring \<Rightarrow> nat" where
  "digits_value s = foldl (\<lambda>v c. 10 * v + (c - 48)) 0 s"

text \<open>
  A number literal at the head of the text: an optional minus, an integer part without a
  leading zero, an optional fraction, an optional exponent.  Its value is the double
  nearest to the decimal number written.
\<close>

definition json_number :: "jsstring \<Rightarrow> (jsnum \<times> jsstring) option" where
  "json_number s =
     (let neg = (s \<noteq> [] \<and> hd s = 45);
          s1 = (if neg then tl s else s);
          ip = takeWhile is_digit s1;
          s2 = dropWhile is_digit s1;
          has_frac = (s2 \<noteq> [] \<and> hd s2 = 46);
          fp = (if has_frac then takeWhile is_digit (tl s2) else []);
          s3 = (if has_frac then dropWhile is_digit (tl s2) else s2);
          has_exp = (s3 \<noteq> [] \<and> (hd s3 = 101 \<or> hd s3 = 69));
          s4 = (if has_exp then tl s3 else s3);
          has_sign = (has_exp \<and> s4 \<noteq> [] \<and> (hd s4 = 45 \<or> hd s4 = 43));
          eneg = (has_sign \<and> hd s4 = 45);
          s5 = (if has_sign then tl s4 else s4);
          ep = (if has_exp then takeWhile is_digit s5 else []);
          s6 = (if has_exp then dropWhile is_digit s5 else s3);
          mantissa = rat_of_nat (digits_value (ip @ fp)) / 10 ^ length fp;
          scaled = (if eneg then mantissa / 10 ^ digits_value ep
                    else mantissa * 10 ^ digits_value ep)
      in if ip = [] \<or> (hd ip = 48 \<and> 1 < length ip) then None
         else if has_frac \<and> fp = [] then None
         else if has_exp \<and> ep = [] then None
         else Some (to_double neg scaled, s6))"

definition is_json_whitespace :: "nat \<Rightarrow> bool" where
  "is_json_whitespace c = (c \<in> set [9, 10, 13, 32])"

lemma json_string_chars_shorter:
  "json_string_chars s = Some (v, r) \<Longrightarrow> length r < length s"
proof (induction s arbitrary: v r rule: json_string_chars.induct)
  case 1
  then show ?case by simp
next
  case (2 c cs)
  show ?case
  proof (cases "c = 34")
    case True
    with 2 show ?thesis by simp
  next
    case c34: False
    show ?thesis
    proof (cases "c = 92")
      case False
      with c34 2 show ?thesis
        by (fastforce split: if_splits)
    next
      case True
      then obtain e es where cs: "cs = e # es"
        using "2.prems" by (cases cs) auto
      show ?thesis
      proof (cases "e = 117")
        case True
        with \<open>c = 92\<close> c34 cs "2.prems" "2.IH"(1) [OF c34 \<open>c = 92\<close> cs True]
        show ?thesis
          by (fastforce split: if_splits)
      next
        case False
        with \<open>c = 92\<close> c34 cs "2.prems" "2.IH"(2) [OF c34 \<open>c = 92\<close> cs False]
        show ?thesis
          by (fastforce split: if_splits option.splits)
      qed
    qed
  qed
qed

lemma json_number_shorter:
  assumes a: "json_number s = Some (v, r)"
  shows "length r < length s"
proof -
  have dw: "length (dropWhile P xs) \<le> length xs" for P and xs :: "nat list"
    by (simp add: length_dropWhile_le)
  define neg where "neg = (s \<noteq> [] \<and> hd s = 45)"
  define s1 where "s1 = (if neg then tl s else s)"
  define ip where "ip = takeWhile is_digit s1"
  define s2 where "s2 = dropWhile is_digit s1"
  define has_frac where "has_frac = (s2 \<noteq> [] \<and> hd s2 = 46)"
  define fp where "fp = (if has_frac then takeWhile is_digit (tl s2) else [])"
  define s3 where "s3 = (if has_frac then dropWhile is_digit (tl s2) else s2)"
  define has_exp where "has_exp = (s3 \<noteq> [] \<and> (hd s3 = 101 \<or> hd s3 = 69))"
  define s4 where "s4 = (if has_exp then tl s3 else s3)"
  define has_sign where "has_sign = (has_exp \<and> s4 \<noteq> [] \<and> (hd s4 = 45 \<or> hd s4 = 43))"
  define s5 where "s5 = (if has_sign then tl s4 else s4)"
  define ep where "ep = (if has_exp then takeWhile is_digit s5 else [])"
  define s6 where "s6 = (if has_exp then dropWhile is_digit s5 else s3)"
  have "\<exists>x. json_number s =
      (if ip = [] \<or> (hd ip = 48 \<and> 1 < length ip) then None
       else if has_frac \<and> fp = [] then None
       else if has_exp \<and> ep = [] then None
       else Some (x, s6))"
    unfolding json_number_def Let_def s6_def ep_def s5_def has_sign_def s4_def has_exp_def
      s3_def fp_def has_frac_def s2_def ip_def s1_def neg_def
    by blast
  then obtain x where "json_number s =
      (if ip = [] \<or> (hd ip = 48 \<and> 1 < length ip) then None
       else if has_frac \<and> fp = [] then None
       else if has_exp \<and> ep = [] then None
       else Some (x, s6))" ..
  with a have r: "r = s6" and ip: "ip \<noteq> []"
    by (simp_all split: if_splits)
  have "length s1 = length ip + length s2"
    unfolding s2_def ip_def by (metis length_append takeWhile_dropWhile_id)
  with ip have "length s2 < length s1"
    by (cases ip) auto
  moreover have "length s1 \<le> length s"
    unfolding s1_def by simp
  moreover have "length s3 \<le> length s2"
    unfolding s3_def using dw [of is_digit "tl s2"] by (simp split: if_splits) linarith
  moreover have s43: "length s4 \<le> length s3"
    unfolding s4_def by simp
  moreover have s54: "length s5 \<le> length s4"
    unfolding s5_def by simp
  moreover have "length s6 \<le> length s3"
    unfolding s6_def using dw [of is_digit s5] s54 s43 by (simp split: if_splits)
  ultimately show ?thesis
    unfolding r by linarith
qed

text \<open>The tokens of a JSON text; \<open>None\<close> at a character that starts no token.\<close>

function tokenise :: "jsstring \<Rightarrow> json_token list option" where
  "tokenise [] = Some []"
| "tokenise (c # cs) =
     (if is_json_whitespace c then tokenise cs
      else if c = 123 then map_option ((#) TLBrace) (tokenise cs)
      else if c = 125 then map_option ((#) TRBrace) (tokenise cs)
      else if c = 91 then map_option ((#) TLBracket) (tokenise cs)
      else if c = 93 then map_option ((#) TRBracket) (tokenise cs)
      else if c = 58 then map_option ((#) TColon) (tokenise cs)
      else if c = 44 then map_option ((#) TComma) (tokenise cs)
      else if c = 34 then
        (case json_string_chars cs of
           None \<Rightarrow> None
         | Some (v, r) \<Rightarrow> map_option ((#) (TString v)) (tokenise r))
      else if c = 116 \<and> take 3 cs = js ''rue'' then map_option ((#) TTrue) (tokenise (drop 3 cs))
      else if c = 102 \<and> take 4 cs = js ''alse'' then
        map_option ((#) TFalse) (tokenise (drop 4 cs))
      else if c = 110 \<and> take 3 cs = js ''ull'' then map_option ((#) TNull) (tokenise (drop 3 cs))
      else if c = 45 \<or> is_digit c then
        (case json_number (c # cs) of
           None \<Rightarrow> None
         | Some (v, r) \<Rightarrow> map_option ((#) (TNumber v)) (tokenise r))
      else None)"
  by pat_completeness auto
termination
proof (relation "measure length")
  show "wf (measure length)" by simp
next
  fix c cs x2 x y
  assume "json_string_chars cs = Some x2" "(x, y) = x2"
  then have "json_string_chars cs = Some (x, y)" by simp
  from json_string_chars_shorter [OF this]
  show "(y, c # cs) \<in> measure length" by simp
next
  fix c cs x2 x y
  assume "json_number (c # cs) = Some x2" "(x, y) = x2"
  then have "json_number (c # cs) = Some (x, y)" by simp
  from json_number_shorter [OF this]
  show "(y, c # cs) \<in> measure length" by simp
qed simp_all

text \<open>
  The grammar over the tokens, as a pushdown automaton.  A frame of the stack is an array or
  an object under construction; the mode says which token may come next.
\<close>

datatype json_frame =
    FArray "jsvalue list"
  | FObject "(jsstring \<times> jsvalue) list"
  | FMember "(jsstring \<times> jsvalue) list" jsstring

datatype json_mode =
    MValue | MValueOrClose | MKey | MKeyOrClose | MColon jsstring | MAfterValue
  | MDone jsvalue

text \<open>A complete value goes to the enclosing array or object, or is the result.\<close>

fun json_deliver :: "jsvalue \<Rightarrow> json_frame list \<Rightarrow> (json_mode \<times> json_frame list) option" where
  "json_deliver v [] = Some (MDone v, [])"
| "json_deliver v (FArray vs # st) = Some (MAfterValue, FArray (vs @ [v]) # st)"
| "json_deliver v (FMember ps k # st) = Some (MAfterValue, FObject (obj_put ps k v) # st)"
| "json_deliver v (FObject ps # st) = None"

fun json_start_value :: "json_token \<Rightarrow> json_frame list \<Rightarrow> (json_mode \<times> json_frame list) option" where
  "json_start_value TLBrace st = Some (MKeyOrClose, FObject [] # st)"
| "json_start_value TLBracket st = Some (MValueOrClose, FArray [] # st)"
| "json_start_value (TString s) st = json_deliver (JStr s) st"
| "json_start_value (TNumber n) st = json_deliver (JNum n) st"
| "json_start_value TTrue st = json_deliver (JBool True) st"
| "json_start_value TFalse st = json_deliver (JBool False) st"
| "json_start_value TNull st = json_deliver JNull st"
| "json_start_value _ st = None"

text \<open>The frame on top of the stack, when it is an array or an object between members.\<close>

fun top_array :: "json_frame list \<Rightarrow> (jsvalue list \<times> json_frame list) option" where
  "top_array (FArray vs # st) = Some (vs, st)"
| "top_array _ = None"

fun top_object :: "json_frame list \<Rightarrow> ((jsstring \<times> jsvalue) list \<times> json_frame list) option" where
  "top_object (FObject ps # st) = Some (ps, st)"
| "top_object _ = None"

definition close_array :: "json_frame list \<Rightarrow> (json_mode \<times> json_frame list) option" where
  "close_array st = (case top_array st of None \<Rightarrow> None | Some (vs, st') \<Rightarrow> json_deliver (JArr vs) st')"

definition close_object :: "json_frame list \<Rightarrow> (json_mode \<times> json_frame list) option" where
  "close_object st = (case top_object st of None \<Rightarrow> None | Some (ps, st') \<Rightarrow> json_deliver (JObj ps) st')"

fun json_step :: "json_mode \<times> json_frame list \<Rightarrow> json_token \<Rightarrow> (json_mode \<times> json_frame list) option" where
  "json_step (MValue, st) t = json_start_value t st"
| "json_step (MValueOrClose, st) t =
     (if t = TRBracket then close_array st else json_start_value t st)"
| "json_step (MKeyOrClose, st) t =
     (case t of TRBrace \<Rightarrow> close_object st | TString k \<Rightarrow> Some (MColon k, st) | _ \<Rightarrow> None)"
| "json_step (MKey, st) t = (case t of TString k \<Rightarrow> Some (MColon k, st) | _ \<Rightarrow> None)"
| "json_step (MColon k, st) t =
     (case t of
        TColon \<Rightarrow>
          (case top_object st of None \<Rightarrow> None | Some (ps, st') \<Rightarrow> Some (MValue, FMember ps k # st'))
      | _ \<Rightarrow> None)"
| "json_step (MAfterValue, st) t =
     (case t of
        TComma \<Rightarrow>
          (case st of
             FArray vs # st' \<Rightarrow> Some (MValue, st)
           | FObject ps # st' \<Rightarrow> Some (MKey, st)
           | _ \<Rightarrow> None)
      | TRBracket \<Rightarrow> close_array st
      | TRBrace \<Rightarrow> close_object st
      | _ \<Rightarrow> None)"
| "json_step (MDone v, st) t = None"

fun json_run :: "json_mode \<times> json_frame list \<Rightarrow> json_token list \<Rightarrow> (json_mode \<times> json_frame list) option" where
  "json_run q [] = Some q"
| "json_run q (t # ts) = (case json_step q t of None \<Rightarrow> None | Some q' \<Rightarrow> json_run q' ts)"

text \<open>\<open>JSON.parse(text)\<close> without a reviver: the value, or \<open>SyntaxError\<close>.\<close>

definition JSON_parse :: "jsstring \<Rightarrow> js_error + jsvalue" where
  "JSON_parse text =
     (case tokenise text of
        None \<Rightarrow> Inl SyntaxError
      | Some ts \<Rightarrow>
          (case json_run (MValue, []) ts of
             Some (MDone v, []) \<Rightarrow> Inr v
           | _ \<Rightarrow> Inl SyntaxError))"

section \<open>utils.js: encodeSDP and decodeSDP\<close>

text \<open>
  An \<open>RTCSessionDescription\<close> as the codec reads it: the attributes \<open>type\<close> and \<open>sdp\<close>, both
  strings.
\<close>

record descriptor =
  desc_type :: jsstring
  desc_sdp :: jsstring

text \<open>
  \<^verbatim>\<open>
  export function encodeSDP(desc) {
      const obj = { type: desc.type, sdp: desc.sdp };
      return btoa(unescape(encodeURIComponent(JSON.stringify(obj))));
  }
  \<close>
\<close>

definition encodeSDP :: "descriptor \<Rightarrow> js_error + jsstring" where
  "encodeSDP desc =
     (case encodeURIComponent (JSON_stringify_type_sdp (desc_type desc) (desc_sdp desc)) of
        Inl e \<Rightarrow> Inl e
      | Inr u \<Rightarrow> btoa (unescape u))"

text \<open>
  \<^verbatim>\<open>
  export function decodeSDP(encoded) {
      return JSON.parse(decodeURIComponent(escape(atob(encoded))));
  }
  \<close>
\<close>

definition decodeSDP :: "jsstring \<Rightarrow> js_error + jsvalue" where
  "decodeSDP encoded =
     (case atob encoded of
        Inl e \<Rightarrow> Inl e
      | Inr bytes \<Rightarrow>
          (case decodeURIComponent (escape bytes) of
             Inl e \<Rightarrow> Inl e
           | Inr text \<Rightarrow> JSON_parse text))"

section \<open>The codec is a lossless round trip\<close>

subsection \<open>Base64\<close>

text \<open>The sextets of the octets, before the alphabet and the padding are applied.\<close>

fun base64_sextets :: "nat list \<Rightarrow> nat list" where
  "base64_sextets (a # b # c # r) =
     [a div 4, (a mod 4) * 16 + b div 16, (b mod 16) * 4 + c div 64, c mod 64] @ base64_sextets r"
| "base64_sextets [a, b] = [a div 4, (a mod 4) * 16 + b div 16, (b mod 16) * 4]"
| "base64_sextets [a] = [a div 4, (a mod 4) * 16]"
| "base64_sextets [] = []"

lemma base64_char_not_pad: "base64_char i \<noteq> 61"
  unfolding base64_char_def by (simp split: if_splits) arith

lemma base64_char_not_whitespace: "\<not> is_ascii_whitespace (base64_char i)"
  unfolding base64_char_def is_ascii_whitespace_def by (simp split: if_splits) arith

lemma base64_char_is_base64: "is_base64_char (base64_char i)"
  unfolding base64_char_def is_base64_char_def is_alpha_num_def by (simp split: if_splits) arith

lemma base64_value_char: "i < 64 \<Longrightarrow> base64_value (base64_char i) = i"
  unfolding base64_char_def base64_value_def by (simp split: if_splits) arith

lemma strip_padding_append:
  assumes "length xs mod 4 = 0" "ys \<noteq> []"
  shows "strip_padding (xs @ ys) = xs @ strip_padding ys"
proof -
  have len: "length (xs @ ys) mod 4 = length ys mod 4"
    using assms(1) by (simp add: mod_add_left_eq [symmetric, of "length xs"])
  have last: "last (xs @ ys) = last ys"
    using assms(2) by simp
  have bl: "butlast (xs @ ys) = xs @ butlast ys"
    using assms(2) by (simp add: butlast_append)
  show ?thesis
  proof (cases "butlast ys = []")
    case True
    with assms(2) have "length ys = 1"
      by (cases ys) (auto split: if_splits)
    then have "length ys mod 4 \<noteq> 0" by simp
    then show ?thesis
      unfolding strip_padding_def len by simp
  next
    case False
    then show ?thesis
      unfolding strip_padding_def len last bl using assms(2) by (simp add: butlast_append)
  qed
qed

lemma base64_encode_no_whitespace:
  "filter (\<lambda>c. \<not> is_ascii_whitespace c) (base64_encode bs) = base64_encode bs"
  by (induction bs rule: base64_encode.induct)
    (simp_all add: base64_char_not_whitespace, simp_all add: is_ascii_whitespace_def)

lemma strip_padding_base64_encode:
  "strip_padding (base64_encode bs) = map base64_char (base64_sextets bs)"
proof (induction bs rule: base64_encode.induct)
  case (1 a b c r)
  show ?case
  proof (cases "r = []")
    case True
    then show ?thesis
      by (simp add: strip_padding_def base64_char_not_pad)
  next
    case False
    then have ne: "base64_encode r \<noteq> []"
      by (cases r rule: base64_encode.cases) simp_all
    have "strip_padding ([base64_char (a div 4), base64_char ((a mod 4) * 16 + b div 16),
        base64_char ((b mod 16) * 4 + c div 64), base64_char (c mod 64)] @ base64_encode r)
      = [base64_char (a div 4), base64_char ((a mod 4) * 16 + b div 16),
        base64_char ((b mod 16) * 4 + c div 64), base64_char (c mod 64)]
        @ strip_padding (base64_encode r)"
      by (rule strip_padding_append) (simp_all add: ne)
    with 1 show ?thesis by simp
  qed
qed (simp_all add: strip_padding_def base64_char_not_pad)

lemma base64_sextets_length: "length (base64_sextets bs) mod 4 \<noteq> 1"
  by (induction bs rule: base64_sextets.induct) simp_all

lemma sextets_to_octets_base64_sextets:
  "list_all (\<lambda>c. c \<le> 255) bs \<Longrightarrow>
   sextets_to_octets (map base64_value (map base64_char (base64_sextets bs))) = bs"
proof (induction bs rule: base64_sextets.induct)
  case (1 a b c r)
  then have le: "a \<le> 255" "b \<le> 255" "c \<le> 255" and r: "list_all (\<lambda>c. c \<le> 255) r"
    by simp_all
  have v: "base64_value (base64_char (a div 4)) = a div 4"
    "base64_value (base64_char ((a mod 4) * 16 + b div 16)) = (a mod 4) * 16 + b div 16"
    "base64_value (base64_char ((b mod 16) * 4 + c div 64)) = (b mod 16) * 4 + c div 64"
    "base64_value (base64_char (c mod 64)) = c mod 64"
    using le by (simp_all add: base64_value_char)
  have "(a div 4) * 4 + ((a mod 4) * 16 + b div 16) div 16 = a"
    "(((a mod 4) * 16 + b div 16) mod 16) * 16 + ((b mod 16) * 4 + c div 64) div 4 = b"
    "(((b mod 16) * 4 + c div 64) mod 4) * 64 + c mod 64 = c"
    using le by simp_all
  with v 1(1) [OF r] show ?case by simp
next
  case (2 a b)
  then have le: "a \<le> 255" "b \<le> 255" by simp_all
  have v: "base64_value (base64_char (a div 4)) = a div 4"
    "base64_value (base64_char ((a mod 4) * 16 + b div 16)) = (a mod 4) * 16 + b div 16"
    "base64_value (base64_char ((b mod 16) * 4)) = (b mod 16) * 4"
    using le by (simp_all add: base64_value_char)
  have "(a div 4) * 4 + ((a mod 4) * 16 + b div 16) div 16 = a"
    "(((a mod 4) * 16 + b div 16) mod 16) * 16 + ((b mod 16) * 4) div 4 = b"
    using le by simp_all
  with v show ?case by simp
next
  case (3 a)
  then have le: "a \<le> 255" by simp
  have v: "base64_value (base64_char (a div 4)) = a div 4"
    "base64_value (base64_char ((a mod 4) * 16)) = (a mod 4) * 16"
    using le by (simp_all add: base64_value_char)
  have "(a div 4) * 4 + ((a mod 4) * 16) div 16 = a"
    by simp
  with v show ?case by simp
next
  case 4
  show ?case by simp
qed

lemma atob_base64_encode:
  assumes "list_all (\<lambda>c. c \<le> 255) bs"
  shows "atob (base64_encode bs) = Inr bs"
proof -
  have "list_all is_base64_char (map base64_char (base64_sextets bs))"
    by (simp add: list_all_iff base64_char_is_base64)
  moreover have "length (map base64_char (base64_sextets bs)) mod 4 \<noteq> 1"
    using base64_sextets_length [of bs] by simp
  ultimately show ?thesis
    unfolding atob_def Let_def base64_encode_no_whitespace strip_padding_base64_encode
    using sextets_to_octets_base64_sextets [OF assms] by simp
qed

subsection \<open>UTF-8 through percent-encoding\<close>

text \<open>
  A string is well formed when every surrogate is part of a pair; \<open>utf8_string\<close> is the
  UTF-8 form of a well-formed string.
\<close>

fun well_formed_utf16 :: "jsstring \<Rightarrow> bool" where
  "well_formed_utf16 [] = True"
| "well_formed_utf16 (c # cs) =
     (if is_high_surrogate c then
        (case cs of [] \<Rightarrow> False | d # ds \<Rightarrow> is_low_surrogate d \<and> well_formed_utf16 ds)
      else \<not> is_low_surrogate c \<and> well_formed_utf16 cs)"

fun utf8_string :: "jsstring \<Rightarrow> nat list" where
  "utf8_string [] = []"
| "utf8_string (c # cs) =
     (if is_high_surrogate c then
        (case cs of
           [] \<Rightarrow> []
         | d # ds \<Rightarrow> utf8_octets (surrogate_pair_to_code_point c d) @ utf8_string ds)
      else utf8_octets c @ utf8_string cs)"

lemma hex_digit_upper_is_hex: "d < 16 \<Longrightarrow> is_hex_digit (hex_digit_upper d)"
  unfolding hex_digit_upper_def is_hex_digit_def by (auto split: if_splits)

lemma hex_digit_upper_value: "d < 16 \<Longrightarrow> hex_digit_value (hex_digit_upper d) = d"
  unfolding hex_digit_upper_def hex_digit_value_def by (simp split: if_splits)

lemma hex_digit_upper_not_u: "d < 16 \<Longrightarrow> hex_digit_upper d \<noteq> 117"
  unfolding hex_digit_upper_def by (simp split: if_splits)

lemma hex_value_2: "hex_value [a, b] = 16 * hex_digit_value a + hex_digit_value b"
  by (simp add: hex_value_def)

lemma hex_value_upper_pair:
  "b < 256 \<Longrightarrow> hex_value [hex_digit_upper (b div 16), hex_digit_upper (b mod 16)] = b"
  by (simp add: hex_value_2 hex_digit_upper_value)

lemma unescape_percent_octet:
  assumes "b < 256"
  shows "unescape (percent_octet b @ r) = b # unescape r"
proof -
  have d: "b div 16 < 16" "b mod 16 < 16" using assms by simp_all
  show ?thesis
    unfolding percent_octet_def
    using hex_digit_upper_not_u [OF d(1)] hex_digit_upper_is_hex [OF d(1)]
      hex_digit_upper_is_hex [OF d(2)] hex_value_upper_pair [OF assms]
    by simp
qed

lemma unescape_percent_octets:
  "list_all (\<lambda>b. b < 256) bs \<Longrightarrow> unescape (concat (map percent_octet bs) @ r) = bs @ unescape r"
  by (induction bs) (simp_all add: unescape_percent_octet)

lemma uri_unreserved_ascii: "uri_unreserved c \<Longrightarrow> c < 128 \<and> c \<noteq> 37"
  unfolding uri_unreserved_def is_alpha_num_def by auto

lemma utf8_octets_bytes: "cp \<le> 1114111 \<Longrightarrow> list_all (\<lambda>b. b < 256) (utf8_octets cp)"
  unfolding utf8_octets_def by simp arith

lemma surrogate_pair_range:
  "is_high_surrogate c \<Longrightarrow> is_low_surrogate d \<Longrightarrow>
   65536 \<le> surrogate_pair_to_code_point c d \<and> surrogate_pair_to_code_point c d \<le> 1114111"
  unfolding is_high_surrogate_def is_low_surrogate_def surrogate_pair_to_code_point_def
  by arith

lemma utf16_encode_surrogate_pair:
  assumes "is_high_surrogate c" "is_low_surrogate d"
  shows "utf16_encode_code_point (surrogate_pair_to_code_point c d) = [c, d]"
proof -
  define x where "x = c - 55296"
  define y where "y = d - 56320"
  have x: "c = 55296 + x" "x < 1024" and y: "d = 56320 + y" "y < 1024"
    using assms unfolding is_high_surrogate_def is_low_surrogate_def x_def y_def
    by simp_all arith+
  show ?thesis
    unfolding utf16_encode_code_point_def surrogate_pair_to_code_point_def x y
    using x(2) y(2) by simp
qed


lemma unescape_encodeURIComponent:
  "js_string s \<Longrightarrow> well_formed_utf16 s \<Longrightarrow>
   \<exists>u. encodeURIComponent s = Inr u \<and> unescape u = utf8_string s"
proof (induction s rule: well_formed_utf16.induct)
  case 1
  show ?case by simp
next
  case (2 c cs)
  from "2.prems" have c: "c < 65536" and cs: "js_string cs"
    by (simp_all add: js_string_def)
  show ?case
  proof (cases "is_high_surrogate c")
    case True
    then have nu: "\<not> uri_unreserved c" and nl: "\<not> is_low_surrogate c"
      using uri_unreserved_ascii [of c]
      unfolding is_high_surrogate_def is_low_surrogate_def by auto
    from True "2.prems"(2) obtain d ds where
      dd: "cs = d # ds" "is_low_surrogate d" "well_formed_utf16 ds"
      by (cases cs) auto
    from cs dd(1) have "js_string ds" by (simp add: js_string_def)
    from "2.IH"(1) [OF True dd(1) this dd(3)] obtain u where
      u: "encodeURIComponent ds = Inr u" "unescape u = utf8_string ds" by blast
    have b: "list_all (\<lambda>b. b < 256) (utf8_octets (surrogate_pair_to_code_point c d))"
      using surrogate_pair_range [OF True dd(2)] by (simp add: utf8_octets_bytes)
    show ?thesis
      using True nu nl dd u unescape_percent_octets [OF b] by simp
  next
    case False
    with "2.prems"(2) have nl: "\<not> is_low_surrogate c" and wf: "well_formed_utf16 cs"
      by simp_all
    from "2.IH"(2) [OF False cs wf] obtain u where
      u: "encodeURIComponent cs = Inr u" "unescape u = utf8_string cs" by blast
    show ?thesis
    proof (cases "uri_unreserved c")
      case True
      then have "c < 128" "c \<noteq> 37"
        using uri_unreserved_ascii by blast+
      then show ?thesis
        using True False u by (simp add: utf8_octets_def)
    next
      case nu: False
      have b: "list_all (\<lambda>b. b < 256) (utf8_octets c)"
        using c by (simp add: utf8_octets_bytes)
      show ?thesis
        using nu nl False u unescape_percent_octets [OF b] by simp
    qed
  qed
qed

lemma utf8_string_bytes:
  "js_string s \<Longrightarrow> well_formed_utf16 s \<Longrightarrow> list_all (\<lambda>b. b \<le> 255) (utf8_string s)"
proof (induction s rule: well_formed_utf16.induct)
  case 1
  show ?case by simp
next
  case (2 c cs)
  have le: "list_all (\<lambda>b. b \<le> 255) bs" if "list_all (\<lambda>b. b < 256) bs" for bs :: "nat list"
    using that by (induction bs) auto
  from "2.prems" have c: "c < 65536" and cs: "js_string cs"
    by (simp_all add: js_string_def)
  show ?case
  proof (cases "is_high_surrogate c")
    case True
    from True "2.prems"(2) obtain d ds where
      dd: "cs = d # ds" "is_low_surrogate d" "well_formed_utf16 ds"
      by (cases cs) auto
    from cs dd(1) have "js_string ds" by (simp add: js_string_def)
    from "2.IH"(1) [OF True dd(1) this dd(3)]
    have "list_all (\<lambda>b. b \<le> 255) (utf8_string ds)" .
    moreover have "list_all (\<lambda>b. b \<le> 255) (utf8_octets (surrogate_pair_to_code_point c d))"
      using surrogate_pair_range [OF True dd(2)] by (simp add: utf8_octets_bytes le)
    ultimately show ?thesis
      using True dd(1) by simp
  next
    case False
    with "2.prems"(2) have wf: "well_formed_utf16 cs"
      by simp
    have "list_all (\<lambda>b. b \<le> 255) (utf8_octets c)"
      using c by (simp add: utf8_octets_bytes le)
    with "2.IH"(2) [OF False cs wf] False show ?thesis
      by simp
  qed
qed

lemma escape_Cons: "escape (b # bs) = escape_unit b @ escape bs"
  by (simp add: escape_def)

lemma escape_append: "escape (xs @ ys) = escape xs @ escape ys"
  by (simp add: escape_def)

lemma escape_unescaped_ascii: "escape_unescaped c \<Longrightarrow> c < 128 \<and> c \<noteq> 37"
  unfolding escape_unescaped_def is_alpha_num_def by auto

lemma escape_unit_high: "128 \<le> b \<Longrightarrow> b < 256 \<Longrightarrow> escape_unit b = percent_octet b"
  using escape_unescaped_ascii [of b] by (auto simp: escape_unit_def)

lemma escape_high: 
  "list_all (\<lambda>b. 128 \<le> b \<and> b < 256) bs \<Longrightarrow> escape bs = concat (map percent_octet bs)"
  by (induction bs) (simp_all add: escape_Cons escape_unit_high, simp add: escape_def)

lemma percent_octet_length: "length (concat (map percent_octet bs)) = 3 * length bs"
  by (induction bs) (simp_all add: percent_octet_def)

lemma continuation_octets_percent:
  "list_all (\<lambda>b. b < 256) conts \<Longrightarrow>
   continuation_octets (length conts) (concat (map percent_octet conts) @ r) = Some conts"
proof (induction conts)
  case Nil
  show ?case by simp
next
  case (Cons b conts)
  then have b: "b < 256" and m: "list_all (\<lambda>b. b < 256) conts" by simp_all
  have d: "b div 16 < 16" "b mod 16 < 16" using b by simp_all
  show ?case
    using Cons.IH [OF m] hex_digit_upper_is_hex [OF d(1)] hex_digit_upper_is_hex [OF d(2)]
      hex_value_upper_pair [OF b]
    by (simp add: percent_octet_def)
qed

lemma decodeURIComponent_percent_ascii:
  assumes "b < 128"
  shows "decodeURIComponent (percent_octet b @ r) = map_sum id ((#) b) (decodeURIComponent r)"
proof -
  have b: "b < 256" using assms by simp
  have d: "b div 16 < 16" "b mod 16 < 16" using b by simp_all
  show ?thesis
    using assms hex_digit_upper_is_hex [OF d(1)] hex_digit_upper_is_hex [OF d(2)]
      hex_value_upper_pair [OF b]
    by (simp add: percent_octet_def leading_ones_def)
qed

lemma decodeURIComponent_percent_multi:
  assumes b: "b < 256" and n: "leading_ones b = Suc (length conts)" "length conts \<in> {1, 2, 3}"
    and conts: "list_all (\<lambda>b. b < 256) conts"
    and v: "utf8_code_point (b # conts) = Some v"
  shows "decodeURIComponent (concat (map percent_octet (b # conts)) @ r)
       = map_sum id ((@) (utf16_encode_code_point v)) (decodeURIComponent r)"
proof -
  have d: "b div 16 < 16" "b mod 16 < 16" using b by simp_all
  define rest where "rest = concat (map percent_octet conts) @ r"
  have len: "length rest = 3 * length conts + length r"
    by (simp add: rest_def percent_octet_length)
  have co: "continuation_octets (length conts) rest = Some conts"
    unfolding rest_def by (rule continuation_octets_percent [OF conts])
  have dr: "drop (3 * length conts) rest = r"
    by (simp add: rest_def percent_octet_length)
  have "decodeURIComponent (concat (map percent_octet (b # conts)) @ r)
      = decodeURIComponent (37 # hex_digit_upper (b div 16) # hex_digit_upper (b mod 16) # rest)"
    by (simp add: rest_def percent_octet_def)
  also have "\<dots> = map_sum id ((@) (utf16_encode_code_point v)) (decodeURIComponent r)"
    using n hex_digit_upper_is_hex [OF d(1)] hex_digit_upper_is_hex [OF d(2)]
      hex_value_upper_pair [OF b] len co dr v
    by (subst decodeURIComponent.simps) (auto simp: Let_def)
  finally show ?thesis .
qed


lemma mod_64_less_128: "(x::nat) mod 64 < 128"
  by arith

lemma utf8_code_point_2:
  assumes "128 \<le> cp" "cp < 2048"
  shows "utf8_code_point [192 + cp div 64, 128 + cp mod 64] = Some cp"
  using assms by (simp add: utf8_code_point_def)

lemma utf8_code_point_3:
  assumes "2048 \<le> cp" "cp < 65536" "\<not> (55296 \<le> cp \<and> cp \<le> 57343)"
  shows "utf8_code_point [224 + cp div 4096, 128 + (cp div 64) mod 64, 128 + cp mod 64] = Some cp"
proof -
  have "cp div 4096 = (cp div 64) div 64"
    by (simp add: div_mult2_eq [symmetric])
  then have "(cp div 4096 * 64 + cp div 64 mod 64) * 64 + cp mod 64 = cp"
    by simp
  with assms show ?thesis
    by (simp add: utf8_code_point_def)
qed

lemma utf8_code_point_4:
  assumes "65536 \<le> cp" "cp \<le> 1114111"
  shows "utf8_code_point [240 + cp div 262144, 128 + (cp div 4096) mod 64,
           128 + (cp div 64) mod 64, 128 + cp mod 64] = Some cp"
proof -
  have a: "cp div 4096 = (cp div 64) div 64"
    by (simp add: div_mult2_eq [symmetric])
  have b: "cp div 262144 = (cp div 4096) div 64"
    by (simp add: div_mult2_eq [symmetric])
  have "(cp div 262144 * 64 + cp div 4096 mod 64) * 64 + cp div 64 mod 64 = cp div 64"
    unfolding b by (simp add: a)
  then have "((cp div 262144 * 64 + cp div 4096 mod 64) * 64 + cp div 64 mod 64) * 64
      + cp mod 64 = cp"
    by simp
  with assms show ?thesis
    by (simp add: utf8_code_point_def)
qed

lemma decodeURIComponent_escape_code_point:
  assumes le: "cp \<le> 1114111" and ns: "\<not> (55296 \<le> cp \<and> cp \<le> 57343)"
  shows "decodeURIComponent (escape (utf8_octets cp) @ r)
       = map_sum id ((@) (utf16_encode_code_point cp)) (decodeURIComponent r)"
proof -
  consider (one) "cp < 128" | (two) "128 \<le> cp" "cp < 2048" | (three) "2048 \<le> cp" "cp < 65536"
    | (four) "65536 \<le> cp"
    by linarith
  then show ?thesis
  proof cases
    case one
    then have o: "utf8_octets cp = [cp]" and e: "utf16_encode_code_point cp = [cp]"
      by (simp_all add: utf8_octets_def utf16_encode_code_point_def)
    have cons: "(@) [cp] = (#) cp" by (rule ext) simp
    show ?thesis
    proof (cases "escape_unescaped cp")
      case True
      then have "cp \<noteq> 37" using escape_unescaped_ascii by blast
      with True show ?thesis
        by (simp add: o e cons escape_def escape_unit_def)
    next
      case False
      with one have "escape [cp] = percent_octet cp"
        by (simp add: escape_def escape_unit_def)
      then show ?thesis
        by (simp add: o e cons decodeURIComponent_percent_ascii [OF one])
    qed
  next
    case two
    define b where "b = 192 + cp div 64"
    define conts where "conts = [128 + cp mod 64]"
    have o: "utf8_octets cp = b # conts"
      using two by (simp add: utf8_octets_def b_def conts_def)
    have rng: "194 \<le> b" "b < 224"
      using two unfolding b_def by arith+
    have hi: "list_all (\<lambda>b. 128 \<le> b \<and> b < 256) (b # conts)"
      using rng by (simp add: conts_def mod_64_less_128)
    have "decodeURIComponent (concat (map percent_octet (b # conts)) @ r)
        = map_sum id ((@) (utf16_encode_code_point cp)) (decodeURIComponent r)"
    proof (rule decodeURIComponent_percent_multi)
      show "b < 256" using rng by simp
      show "leading_ones b = Suc (length conts)"
        using rng by (simp add: leading_ones_def conts_def)
      show "length conts \<in> {1, 2, 3}" by (simp add: conts_def)
      show "list_all (\<lambda>b. b < 256) conts" by (simp add: conts_def mod_64_less_128)
      show "utf8_code_point (b # conts) = Some cp"
        unfolding b_def conts_def by (rule utf8_code_point_2 [OF two])
    qed
    then show ?thesis
      by (simp only: o escape_high [OF hi])
  next
    case three
    define b where "b = 224 + cp div 4096"
    define conts where "conts = [128 + (cp div 64) mod 64, 128 + cp mod 64]"
    have o: "utf8_octets cp = b # conts"
      using three by (simp add: utf8_octets_def b_def conts_def)
    have rng: "224 \<le> b" "b < 240"
      using three unfolding b_def by arith+
    have hi: "list_all (\<lambda>b. 128 \<le> b \<and> b < 256) (b # conts)"
      using rng by (simp add: conts_def mod_64_less_128)
    have "decodeURIComponent (concat (map percent_octet (b # conts)) @ r)
        = map_sum id ((@) (utf16_encode_code_point cp)) (decodeURIComponent r)"
    proof (rule decodeURIComponent_percent_multi)
      show "b < 256" using rng by simp
      show "leading_ones b = Suc (length conts)"
        using rng by (simp add: leading_ones_def conts_def)
      show "length conts \<in> {1, 2, 3}" by (simp add: conts_def)
      show "list_all (\<lambda>b. b < 256) conts" by (simp add: conts_def mod_64_less_128)
      show "utf8_code_point (b # conts) = Some cp"
        unfolding b_def conts_def by (rule utf8_code_point_3 [OF three ns])
    qed
    then show ?thesis
      by (simp only: o escape_high [OF hi])
  next
    case four
    define b where "b = 240 + cp div 262144"
    define conts where
      "conts = [128 + (cp div 4096) mod 64, 128 + (cp div 64) mod 64, 128 + cp mod 64]"
    have o: "utf8_octets cp = b # conts"
      using four by (simp add: utf8_octets_def b_def conts_def)
    have rng: "240 \<le> b" "b < 245"
      using four le unfolding b_def by arith+
    have hi: "list_all (\<lambda>b. 128 \<le> b \<and> b < 256) (b # conts)"
      using rng by (simp add: conts_def mod_64_less_128)
    have "decodeURIComponent (concat (map percent_octet (b # conts)) @ r)
        = map_sum id ((@) (utf16_encode_code_point cp)) (decodeURIComponent r)"
    proof (rule decodeURIComponent_percent_multi)
      show "b < 256" using rng by simp
      show "leading_ones b = Suc (length conts)"
        using rng by (simp add: leading_ones_def conts_def)
      show "length conts \<in> {1, 2, 3}" by (simp add: conts_def)
      show "list_all (\<lambda>b. b < 256) conts" by (simp add: conts_def mod_64_less_128)
      show "utf8_code_point (b # conts) = Some cp"
        unfolding b_def conts_def by (rule utf8_code_point_4 [OF four le])
    qed
    then show ?thesis
      by (simp only: o escape_high [OF hi])
  qed
qed

lemma decodeURIComponent_escape_utf8_string:
  "js_string s \<Longrightarrow> well_formed_utf16 s \<Longrightarrow>
   decodeURIComponent (escape (utf8_string s)) = Inr s"
proof (induction s rule: well_formed_utf16.induct)
  case 1
  show ?case by (simp add: escape_def)
next
  case (2 c cs)
  from "2.prems" have c: "c < 65536" and cs: "js_string cs"
    by (simp_all add: js_string_def)
  show ?case
  proof (cases "is_high_surrogate c")
    case True
    from True "2.prems"(2) obtain d ds where
      dd: "cs = d # ds" "is_low_surrogate d" "well_formed_utf16 ds"
      by (cases cs) auto
    from cs dd(1) have "js_string ds" by (simp add: js_string_def)
    from "2.IH"(1) [OF True dd(1) this dd(3)]
    have ih: "decodeURIComponent (escape (utf8_string ds)) = Inr ds" .
    have rng: "surrogate_pair_to_code_point c d \<le> 1114111"
      "\<not> (55296 \<le> surrogate_pair_to_code_point c d \<and> surrogate_pair_to_code_point c d \<le> 57343)"
      using surrogate_pair_range [OF True dd(2)] by simp_all
    show ?thesis
      using True dd(1) ih utf16_encode_surrogate_pair [OF True dd(2)]
      by (simp add: escape_append decodeURIComponent_escape_code_point [OF rng])
  next
    case False
    with "2.prems"(2) have nl: "\<not> is_low_surrogate c" and wf: "well_formed_utf16 cs"
      by simp_all
    have rng: "c \<le> 1114111" "\<not> (55296 \<le> c \<and> c \<le> 57343)"
      using c False nl unfolding is_high_surrogate_def is_low_surrogate_def by simp_all arith
    have "utf16_encode_code_point c = [c]"
      using c by (simp add: utf16_encode_code_point_def)
    with "2.IH"(2) [OF False cs wf] False show ?thesis
      by (simp add: escape_append decodeURIComponent_escape_code_point [OF rng])
  qed
qed

subsection \<open>JSON.parse after JSON.stringify\<close>

lemma hex_digit_lower_is_hex: "d < 16 \<Longrightarrow> is_hex_digit (hex_digit_lower d)"
  unfolding hex_digit_lower_def is_hex_digit_def by (auto split: if_splits)

lemma hex_digit_lower_hex_value: "d < 16 \<Longrightarrow> hex_digit_value (hex_digit_lower d) = d"
  unfolding hex_digit_lower_def hex_digit_value_def by (simp split: if_splits)

lemma hex_value_lower_quad:
  assumes "c < 65536"
  shows "hex_value [hex_digit_lower (c div 4096), hex_digit_lower ((c div 256) mod 16),
           hex_digit_lower ((c div 16) mod 16), hex_digit_lower (c mod 16)] = c"
proof -
  have d: "c div 4096 < 16" using assms by simp
  have a: "c div 256 = (c div 16) div 16"
    by (simp add: div_mult2_eq [symmetric])
  have b: "c div 4096 = (c div 256) div 16"
    by (simp add: div_mult2_eq [symmetric])
  have "16 * (16 * (c div 4096) + c div 256 mod 16) + c div 16 mod 16 = c div 16"
    unfolding b by (simp add: a)
  then have "16 * (16 * (16 * (c div 4096) + c div 256 mod 16) + c div 16 mod 16) + c mod 16 = c"
    by simp
  then show ?thesis
    using d by (simp add: hex_value_def hex_digit_lower_hex_value)
qed

lemma json_string_chars_unicode_escape:
  assumes "c < 65536"
  shows "json_string_chars (unicode_escape c @ t)
       = map_option (apfst ((#) c)) (json_string_chars t)"
proof -
  have d: "c div 4096 < 16" using assms by simp
  have h: "list_all is_hex_digit [hex_digit_lower (c div 4096),
      hex_digit_lower ((c div 256) mod 16), hex_digit_lower ((c div 16) mod 16),
      hex_digit_lower (c mod 16)]"
    using d by (simp add: hex_digit_lower_is_hex)
  show ?thesis
    using h hex_value_lower_quad [OF assms] by (simp add: unicode_escape_def)
qed

lemma json_string_chars_plain:
  "32 \<le> c \<Longrightarrow> c \<noteq> 34 \<Longrightarrow> c \<noteq> 92 \<Longrightarrow>
   json_string_chars (c # t) = map_option (apfst ((#) c)) (json_string_chars t)"
  by simp

lemma json_string_chars_quote_json_chars:
  "js_string s \<Longrightarrow> json_string_chars (quote_json_chars s @ 34 # r) = Some (s, r)"
proof (induction "length s" arbitrary: s rule: less_induct)
  case less
  show ?case
  proof (cases s)
    case Nil
    then show ?thesis by simp
  next
    case (Cons c cs)
    with less.prems have c: "c < 65536" and cs: "js_string cs"
      by (simp_all add: js_string_def)
    have ih: "json_string_chars (quote_json_chars cs @ 34 # r) = Some (cs, r)"
      using less.hyps [of cs] cs Cons by simp
    note ue = json_string_chars_unicode_escape [OF c]
    consider (special) "c \<in> {8, 9, 10, 12, 13, 34, 92}"
      | (control) "c \<notin> {8, 9, 10, 12, 13, 34, 92}" "c < 32"
      | (high) "is_high_surrogate c"
      | (low) "is_low_surrogate c"
      | (plain) "c \<notin> {34, 92}" "32 \<le> c" "\<not> is_high_surrogate c" "\<not> is_low_surrogate c"
      by (cases "c < 32") auto
    then show ?thesis
    proof cases
      case special
      then show ?thesis
        using ih Cons by (auto simp: json_escape_def)
    next
      case control
      then show ?thesis
        using ih Cons ue by simp
    next
      case high
      then have big: "32 \<le> c" "c \<noteq> 34" "c \<noteq> 92" "c \<noteq> 8" "c \<noteq> 9" "c \<noteq> 10"
        "c \<noteq> 12" "c \<noteq> 13" "\<not> c < 32"
        unfolding is_high_surrogate_def by simp_all
      show ?thesis
      proof (cases cs)
        case Nil
        with high big Cons ue show ?thesis by simp
      next
        case ds: (Cons d ds)
        show ?thesis
        proof (cases "is_low_surrogate d")
          case True
          then have dbig: "32 \<le> d" "d \<noteq> 34" "d \<noteq> 92" "\<not> d < 32"
            unfolding is_low_surrogate_def by simp_all
          have "js_string ds" using cs ds by (simp add: js_string_def)
          then have "json_string_chars (quote_json_chars ds @ 34 # r) = Some (ds, r)"
            using less.hyps [of ds] Cons ds by simp
          with True high big dbig Cons ds show ?thesis
            by simp
        next
          case False
          with high big Cons ds ue ih show ?thesis
            by simp
        qed
      qed
    next
      case low
      then have big: "32 \<le> c" "c \<noteq> 34" "c \<noteq> 92" "c \<noteq> 8" "c \<noteq> 9" "c \<noteq> 10"
        "c \<noteq> 12" "c \<noteq> 13" "\<not> c < 32" "\<not> is_high_surrogate c"
        unfolding is_low_surrogate_def is_high_surrogate_def by simp_all
      with low Cons ue ih show ?thesis
        by simp
    next
      case plain
      then have "c \<noteq> 8" "c \<noteq> 9" "c \<noteq> 10" "c \<noteq> 12" "c \<noteq> 13" "\<not> c < 32" "c \<noteq> 34" "c \<noteq> 92"
        by auto
      with plain Cons ih show ?thesis
        by simp
    qed
  qed
qed

lemma tokenise_QuoteJSONString:
  "js_string s \<Longrightarrow>
   tokenise (QuoteJSONString s @ r) = map_option ((#) (TString s)) (tokenise r)"
  by (simp add: QuoteJSONString_def is_json_whitespace_def json_string_chars_quote_json_chars)

lemma js_string_js: "js_string (js s)"
proof -
  have "of_char c < (65536::nat)" for c
  proof -
    have "of_char c mod 256 = (of_char c :: nat)" by (rule of_char_mod_256)
    moreover have "(of_char c :: nat) mod 256 < 256" by simp
    ultimately have "(of_char c :: nat) < 256" by (simp only:)
    then show ?thesis by linarith
  qed
  then show ?thesis
    by (simp add: js_string_def js_def list_all_iff)
qed

lemma well_formed_utf16_append:
  "well_formed_utf16 a \<Longrightarrow> well_formed_utf16 b \<Longrightarrow> well_formed_utf16 (a @ b)"
  by (induction a rule: well_formed_utf16.induct) (auto split: list.splits if_splits)

lemma well_formed_utf16_ascii: "list_all (\<lambda>c. c < 128) a \<Longrightarrow> well_formed_utf16 a"
  by (induction a) (auto simp: is_high_surrogate_def is_low_surrogate_def)

lemma hex_digit_lower_ascii: "d < 16 \<Longrightarrow> hex_digit_lower d < 128"
  by (simp add: hex_digit_lower_def)

lemma unicode_escape_ascii: "c < 65536 \<Longrightarrow> list_all (\<lambda>c. c < 128) (unicode_escape c)"
  by (simp add: unicode_escape_def hex_digit_lower_ascii)

lemma list_all_ascii_js_string: "list_all (\<lambda>c. c < 128) a \<Longrightarrow> js_string a"
  by (induction a) (auto simp: js_string_def)

lemma js_string_append: "js_string (a @ b) = (js_string a \<and> js_string b)"
  by (simp add: js_string_def)

lemma js_string_Cons: "js_string (a # b) = (a < 65536 \<and> js_string b)"
  by (simp add: js_string_def)

lemma js_string_unicode_escape: "c < 65536 \<Longrightarrow> js_string (unicode_escape c)"
  by (simp add: unicode_escape_ascii list_all_ascii_js_string)



text \<open>The branches of \<open>quote_json_chars\<close>, one equation each.\<close>

definition json_short_escape :: "nat \<Rightarrow> nat" where
  "json_short_escape c =
     (if c = 8 then 98 else if c = 9 then 116 else if c = 10 then 110 else if c = 12 then 102
      else if c = 13 then 114 else c)"

lemma quote_json_chars_special:
  "c \<in> {8, 9, 10, 12, 13, 34, 92} \<Longrightarrow>
   quote_json_chars (c # cs) = 92 # json_short_escape c # quote_json_chars cs"
  by (auto simp: json_short_escape_def)

lemma quote_json_chars_control:
  "c \<notin> {8, 9, 10, 12, 13, 34, 92} \<Longrightarrow> c < 32 \<Longrightarrow>
   quote_json_chars (c # cs) = unicode_escape c @ quote_json_chars cs"
  by simp

lemma surrogate_not_special:
  assumes "is_high_surrogate c \<or> is_low_surrogate c"
  shows "c \<noteq> 8" "c \<noteq> 9" "c \<noteq> 10" "c \<noteq> 12" "c \<noteq> 13" "c \<noteq> 34" "c \<noteq> 92" "\<not> c < 32"
  using assms unfolding is_high_surrogate_def is_low_surrogate_def by auto

lemma high_not_low: "is_high_surrogate c \<Longrightarrow> \<not> is_low_surrogate c"
  unfolding is_high_surrogate_def is_low_surrogate_def by auto

lemma quote_json_chars_lone_high_end:
  "is_high_surrogate c \<Longrightarrow> quote_json_chars [c] = unicode_escape c"
  using surrogate_not_special [of c] by simp

lemma quote_json_chars_pair:
  "is_high_surrogate c \<Longrightarrow> is_low_surrogate d \<Longrightarrow>
   quote_json_chars (c # d # ds) = c # d # quote_json_chars ds"
  using surrogate_not_special [of c] by simp

lemma quote_json_chars_lone_high:
  "is_high_surrogate c \<Longrightarrow> \<not> is_low_surrogate d \<Longrightarrow>
   quote_json_chars (c # d # ds) = unicode_escape c @ quote_json_chars (d # ds)"
  using surrogate_not_special [of c] by (simp del: quote_json_chars.simps add: quote_json_chars.simps(2) [of c])

lemma quote_json_chars_lone_low:
  "is_low_surrogate c \<Longrightarrow>
   quote_json_chars (c # cs) = unicode_escape c @ quote_json_chars cs"
  using surrogate_not_special [of c] high_not_low [of c]
  by (simp del: quote_json_chars.simps add: quote_json_chars.simps(2) [of c]) blast

lemma quote_json_chars_plain:
  "c \<notin> {8, 9, 10, 12, 13, 34, 92} \<Longrightarrow> 32 \<le> c \<Longrightarrow> \<not> is_high_surrogate c \<Longrightarrow>
   \<not> is_low_surrogate c \<Longrightarrow> quote_json_chars (c # cs) = c # quote_json_chars cs"
  by (simp del: quote_json_chars.simps add: quote_json_chars.simps(2) [of c])


declare quote_json_chars.simps [simp del]

text \<open>What \<open>QuoteJSONString\<close> writes is a well-formed string: lone surrogates are escaped.\<close>

lemma quote_json_chars_well_formed:
  "js_string s \<Longrightarrow> js_string (quote_json_chars s) \<and> well_formed_utf16 (quote_json_chars s)"
proof (induction "length s" arbitrary: s rule: less_induct)
  case less
  show ?case
  proof (cases s)
    case Nil
    then show ?thesis by (simp add: js_string_def quote_json_chars.simps)
  next
    case (Cons c cs)
    with less.prems have c: "c < 65536" and cs: "js_string cs"
      by (simp_all add: js_string_def)
    have ih: "js_string (quote_json_chars cs)" "well_formed_utf16 (quote_json_chars cs)"
      using less.hyps [of cs] cs Cons by simp_all
    have ue: "js_string (unicode_escape c @ t) \<and> well_formed_utf16 (unicode_escape c @ t)"
      if "js_string t" "well_formed_utf16 t" for t
      using unicode_escape_ascii [OF c] that
      by (simp add: js_string_append list_all_ascii_js_string well_formed_utf16_append
          well_formed_utf16_ascii)
    consider (special) "c \<in> {8, 9, 10, 12, 13, 34, 92}"
      | (control) "c \<notin> {8, 9, 10, 12, 13, 34, 92}" "c < 32"
      | (high) "is_high_surrogate c"
      | (low) "is_low_surrogate c"
      | (plain) "c \<notin> {8, 9, 10, 12, 13, 34, 92}" "32 \<le> c" "\<not> is_high_surrogate c"
          "\<not> is_low_surrogate c"
      by (cases "c < 32") auto
    then show ?thesis
    proof cases
      case special
      then have e: "json_short_escape c < 128"
        by (auto simp: json_short_escape_def)
      have "list_all (\<lambda>c. c < 128) [92, json_short_escape c]"
        using e by simp
      then have "js_string ([92, json_short_escape c] @ quote_json_chars cs)
          \<and> well_formed_utf16 ([92, json_short_escape c] @ quote_json_chars cs)"
        using ih
        by (simp only: js_string_append list_all_ascii_js_string well_formed_utf16_append
            well_formed_utf16_ascii)
      then show ?thesis
        unfolding Cons quote_json_chars_special [OF special] by (simp only: append.simps)
    next
      case control
      show ?thesis
        unfolding Cons quote_json_chars_control [OF control] using ue ih by blast
    next
      case high
      show ?thesis
      proof (cases cs)
        case Nil
        have "js_string []" "well_formed_utf16 []" by (simp_all add: js_string_def)
        from ue [OF this] show ?thesis
          unfolding Cons Nil quote_json_chars_lone_high_end [OF high] by simp
      next
        case ds: (Cons d ds)
        show ?thesis
        proof (cases "is_low_surrogate d")
          case True
          have d: "d < 65536" using cs ds by (simp add: js_string_def)
          have "js_string ds" using cs ds by (simp add: js_string_def)
          then have "js_string (quote_json_chars ds)" "well_formed_utf16 (quote_json_chars ds)"
            using less.hyps [of ds] Cons ds by simp_all
          with True high c d show ?thesis
            unfolding Cons ds quote_json_chars_pair [OF high True]
            by (simp add: js_string_def)
        next
          case False
          show ?thesis
            unfolding Cons ds quote_json_chars_lone_high [OF high False]
            using ue ih unfolding ds by blast
        qed
      qed
    next
      case low
      show ?thesis
        unfolding Cons quote_json_chars_lone_low [OF low] using ue ih by blast
    next
      case plain
      show ?thesis
        unfolding Cons quote_json_chars_plain [OF plain]
        using plain(3,4) c ih by (simp add: js_string_def)
    qed
  qed
qed


lemma QuoteJSONString_well_formed:
  assumes "js_string s"
  shows "js_string (QuoteJSONString s)" "well_formed_utf16 (QuoteJSONString s)"
proof -
  have q: "list_all (\<lambda>c. c < 128) [34::nat]" by simp
  show "js_string (QuoteJSONString s)"
    using quote_json_chars_well_formed [OF assms]
    by (simp add: QuoteJSONString_def js_string_def)
  show "well_formed_utf16 (QuoteJSONString s)"
    unfolding QuoteJSONString_def
    using quote_json_chars_well_formed [OF assms] well_formed_utf16_ascii [OF q]
    by (intro well_formed_utf16_append) simp_all
qed

lemma js_ascii_well_formed: "list_all (\<lambda>c. c < 128) (js s) \<Longrightarrow> well_formed_utf16 (js s)"
  by (rule well_formed_utf16_ascii)

lemma JSON_stringify_type_sdp_well_formed:
  assumes t: "js_string t" and s: "js_string s"
  shows "js_string (JSON_stringify_type_sdp t s)"
    and "well_formed_utf16 (JSON_stringify_type_sdp t s)"
proof -
  show "js_string (JSON_stringify_type_sdp t s)"
    unfolding JSON_stringify_type_sdp_def
    by (simp add: js_string_append js_string_js QuoteJSONString_well_formed t s)
  have a: "well_formed_utf16 (js ''{'')" "well_formed_utf16 (js '':'')"
    "well_formed_utf16 (js '','')" "well_formed_utf16 (js ''}'')"
    by (simp_all add: js_def is_high_surrogate_def is_low_surrogate_def)
  show "well_formed_utf16 (JSON_stringify_type_sdp t s)"
    unfolding JSON_stringify_type_sdp_def
    by (intro well_formed_utf16_append a QuoteJSONString_well_formed js_string_js t s)
qed

lemma JSON_parse_stringify_type_sdp:
  assumes t: "js_string t" and s: "js_string s"
  shows "JSON_parse (JSON_stringify_type_sdp t s)
       = Inr (JObj [(js ''type'', JStr t), (js ''sdp'', JStr s)])"
proof -
  have ne: "js ''type'' \<noteq> js ''sdp''"
    by (simp add: js_def)
  have "tokenise (JSON_stringify_type_sdp t s)
      = Some [TLBrace, TString (js ''type''), TColon, TString t, TComma,
              TString (js ''sdp''), TColon, TString s, TRBrace]"
    unfolding JSON_stringify_type_sdp_def
    by (simp add: js_def [of "''{''"] js_def [of "'':''"] js_def [of "'',''"] js_def [of "''}''"]
        is_json_whitespace_def tokenise_QuoteJSONString js_string_js t s)
  then show ?thesis
    using ne by (simp add: JSON_parse_def close_object_def)
qed

subsection \<open>encodeSDP and decodeSDP\<close>

text \<open>The composition, for any two strings.\<close>

lemma decodeSDP_of_encodeSDP:
  assumes "js_string (desc_type d)" and "js_string (desc_sdp d)"
  shows "\<exists>token. encodeSDP d = Inr token
           \<and> decodeSDP token = Inr (JObj [(js ''type'', JStr (desc_type d)),
                                          (js ''sdp'', JStr (desc_sdp d))])"
proof -
  define json where "json = JSON_stringify_type_sdp (desc_type d) (desc_sdp d)"
  have wf: "js_string json" "well_formed_utf16 json"
    unfolding json_def by (rule JSON_stringify_type_sdp_well_formed [OF assms])+
  from unescape_encodeURIComponent [OF wf] obtain u where
    u: "encodeURIComponent json = Inr u" "unescape u = utf8_string json" by blast
  have bytes: "list_all (\<lambda>c. c \<le> 255) (utf8_string json)"
    by (rule utf8_string_bytes [OF wf])
  have enc: "encodeSDP d = Inr (base64_encode (utf8_string json))"
    using u bytes by (simp add: encodeSDP_def json_def [symmetric] btoa_def)
  have "decodeSDP (base64_encode (utf8_string json)) = JSON_parse json"
    by (simp add: decodeSDP_def atob_base64_encode [OF bytes]
        decodeURIComponent_escape_utf8_string [OF wf])
  also have "\<dots> = Inr (JObj [(js ''type'', JStr (desc_type d)), (js ''sdp'', JStr (desc_sdp d))])"
    unfolding json_def by (rule JSON_parse_stringify_type_sdp [OF assms])
  finally show ?thesis
    using enc by blast
qed

text \<open>
  C1.  For every descriptor whose \<open>type\<close> and \<open>sdp\<close> are strings, \<open>encodeSDP\<close> returns a token
  and \<open>decodeSDP\<close> of that token returns the object \<open>{type, sdp}\<close> with the same two
  strings.
\<close>

theorem decodeSDP_encodeSDP:
  assumes "js_string (desc_type d)" and "js_string (desc_sdp d)"
  shows "\<exists>token. encodeSDP d = Inr token
           \<and> decodeSDP token = Inr (JObj [(js ''type'', JStr (desc_type d)),
                                          (js ''sdp'', JStr (desc_sdp d))])"
  using assms by (rule decodeSDP_of_encodeSDP)

theorem decodeSDP_encodeSDP_witness:
  "js_string (js ''answer'') \<and> js_string (js ''v=0'')
   \<and> (\<exists>token. encodeSDP \<lparr>desc_type = js ''answer'', desc_sdp = js ''v=0''\<rparr> = Inr token
         \<and> decodeSDP token = Inr (JObj [(js ''type'', JStr (js ''answer'')),
                                        (js ''sdp'', JStr (js ''v=0''))]))"
  using decodeSDP_encodeSDP [of "\<lparr>desc_type = js ''answer'', desc_sdp = js ''v=0''\<rparr>"]
  by (simp add: js_string_js)

section \<open>network.js: NetworkManager\<close>

text \<open>
  The objects of the WebRTC interface, as far as the manager reads or changes them: a data
  channel with its \<open>readyState\<close> and the messages handed to \<open>send\<close> (each is written to
  the wire by \<open>JSON.stringify\<close>), a peer connection with its descriptions and its ICE
  connection state.
\<close>

datatype ready_state = Connecting | Open | Closing | Closed

datatype ice_connection_state =
  IceNew | IceChecking | IceConnected | IceCompleted | IceDisconnected | IceFailed | IceClosed

record data_channel =
  readyState :: ready_state
  sent :: "jsvalue list"

record peer_connection =
  localDescription :: "descriptor option"
  remoteDescription :: "jsvalue option"
  iceConnectionState :: ice_connection_state

text \<open>An entry of \<open>this.peers\<close>: \<open>{ pc, ch, name }\<close>.\<close>

record peer =
  pc :: peer_connection
  ch :: "data_channel option"
  name :: jsvalue

text \<open>
  A callback set by \<open>app.js\<close>: \<open>None\<close> is \<open>null\<close>; a function is given by what the call
  does to its caller, returning (\<open>None\<close>) or throwing.  The calls made are recorded in
  \<open>calls\<close>, in order; what the collaborator does with them is not part of the manager.
\<close>

type_synonym 'a callback = "('a \<Rightarrow> js_error option) option"

datatype callback_call =
    OnMessage jsstring jsvalue
  | OnPeerConnected jsstring jsvalue
  | OnPeerDisconnected jsstring
  | OnConnectedToHost
  | OnError jsstring

record network_manager =
  peers :: "jsstring \<rightharpoonup> peer"
  pendingPeerId :: "jsstring option"
  hostPc :: "peer_connection option"
  hostChannel :: "data_channel option"
  isHost :: bool
  localName :: jsstring
  closed :: bool
  onMessage :: "(jsstring \<times> jsvalue) callback"
  onPeerConnected :: "(jsstring \<times> jsvalue) callback"
  onPeerDisconnected :: "jsstring callback"
  onConnectedToHost :: "unit callback"
  onError :: "jsstring callback"
  latency :: "jsstring \<rightharpoonup> jsnum"
  calls :: "callback_call list"

definition PROTOCOL_VERSION :: int where
  "PROTOCOL_VERSION = 1"

text \<open>The state the constructor leaves.\<close>

definition new_NetworkManager :: network_manager where
  "new_NetworkManager =
     \<lparr>peers = Map.empty, pendingPeerId = None, hostPc = None, hostChannel = None,
      isHost = False, localName = [], closed = False, onMessage = None,
      onPeerConnected = None, onPeerDisconnected = None, onConnectedToHost = None,
      onError = None, latency = Map.empty, calls = []\<rparr>"

text \<open>\<open>if (cb) cb(args)\<close>: nothing when the callback is \<open>null\<close>.\<close>

definition call_back ::
  "'a callback \<Rightarrow> 'a \<Rightarrow> callback_call \<Rightarrow> network_manager \<Rightarrow> (js_error + unit) \<times> network_manager" where
  "call_back cb args c nm =
     (case cb of
        None \<Rightarrow> (Inr (), nm)
      | Some f \<Rightarrow>
          (case f args of None \<Rightarrow> Inr () | Some e \<Rightarrow> Inl e, nm\<lparr>calls := calls nm @ [c]\<rparr>))"

subsection \<open>Values and operators of the language\<close>

text \<open>
  Reading a property, for the keys the handlers read (\<open>type\<close>, \<open>ts\<close>, \<open>name\<close>; no prototype
  defines them): \<open>undefined\<close> on a value that is not an object with that key, and a
  \<open>TypeError\<close> on \<open>null\<close> and \<open>undefined\<close>.
\<close>

definition js_prop :: "jsvalue \<Rightarrow> jsstring \<Rightarrow> jsvalue" where
  "js_prop v k = (case v of JObj ps \<Rightarrow> obj_get ps k | _ \<Rightarrow> JUndefined)"

definition js_get :: "jsvalue \<Rightarrow> jsstring \<Rightarrow> js_error + jsvalue" where
  "js_get v k = (if v = JNull \<or> v = JUndefined then Inl TypeError else Inr (js_prop v k))"

text \<open>\<open>a ?? b\<close>.\<close>

definition nullish :: "jsvalue \<Rightarrow> jsvalue \<Rightarrow> jsvalue" where
  "nullish a b = (if a = JNull \<or> a = JUndefined then b else a)"

text \<open>
  \<open>ToNumber\<close>.  The conversion of a string, an array or an object (\<open>StringToNumber\<close>,
  \<open>ToPrimitive\<close>) is a parameter.
\<close>

definition ToNumber :: "(jsvalue \<Rightarrow> jsnum) \<Rightarrow> jsvalue \<Rightarrow> jsnum" where
  "ToNumber other v =
     (case v of
        JUndefined \<Rightarrow> NaN
      | JNull \<Rightarrow> Finite 0
      | JBool b \<Rightarrow> Finite (if b then 1 else 0)
      | JNum n \<Rightarrow> n
      | _ \<Rightarrow> other v)"

text \<open>
  \<open>a - b\<close> on numbers: the exact difference of two finite numbers, rounded; \<open>-0\<close> only for
  \<open>-0 - +0\<close>.
\<close>

fun finite_value :: "jsnum \<Rightarrow> rat" where
  "finite_value (Finite r) = r"
| "finite_value _ = 0"

fun js_minus :: "jsnum \<Rightarrow> jsnum \<Rightarrow> jsnum" where
  "js_minus NaN _ = NaN"
| "js_minus _ NaN = NaN"
| "js_minus PosInfinity PosInfinity = NaN"
| "js_minus NegInfinity NegInfinity = NaN"
| "js_minus PosInfinity _ = PosInfinity"
| "js_minus NegInfinity _ = NegInfinity"
| "js_minus _ PosInfinity = NegInfinity"
| "js_minus _ NegInfinity = PosInfinity"
| "js_minus a b =
     (if a = NegZero \<and> b = Finite 0 then NegZero
      else round_double (finite_value a - finite_value b))"

subsection \<open>Host: offers and answers\<close>

text \<open>
  \<^verbatim>\<open>
  async createOffer() {
      const peerId = generateId();
      const pc = new RTCPeerConnection({ iceServers: ICE_SERVERS });
      const ch = pc.createDataChannel(CHANNEL_LABEL, { ordered: true });
      this._setupHostChannel(ch, peerId);
      pc.oniceconnectionstatechange = () => { ... };
      const offer = await pc.createOffer();
      await pc.setLocalDescription(offer);
      await this._waitIceGathering(pc);
      this.peers.set(peerId, { pc, ch, name: null });
      this.pendingPeerId = peerId;
      return { peerId, offerCode: encodeSDP(pc.localDescription) };
  }
  \<close>
  What the environment contributes is an argument: the identifier that \<open>generateId()\<close>
  draws, and the outcome of the WebRTC calls, either the exception of a rejected promise or
  the local description once gathering is over.  The call runs without another event in
  between.
\<close>

definition createOffer ::
  "jsstring \<Rightarrow> js_error + descriptor \<Rightarrow> network_manager
     \<Rightarrow> (js_error + jsstring \<times> jsstring) \<times> network_manager" where
  "createOffer peerId webrtc nm =
     (case webrtc of
        Inl e \<Rightarrow> (Inl e, nm)
      | Inr desc \<Rightarrow>
          let new_pc = \<lparr>localDescription = Some desc, remoteDescription = None,
                         iceConnectionState = IceNew\<rparr>;
              new_ch = \<lparr>readyState = Connecting, sent = []\<rparr>;
              nm' = nm\<lparr>peers := (peers nm)(peerId \<mapsto> \<lparr>pc = new_pc, ch = Some new_ch, name = JNull\<rparr>),
                       pendingPeerId := Some peerId\<rparr>
          in (case encodeSDP desc of
                Inl e \<Rightarrow> (Inl e, nm')
              | Inr offerCode \<Rightarrow> (Inr (peerId, offerCode), nm')))"

text \<open>
  \<^verbatim>\<open>
  async acceptAnswer(answerCode) {
      const id = this.pendingPeerId;
      const peer = this.peers.get(id);
      if (!peer) throw new Error('No pending peer connection.');
      const desc = decodeSDP(answerCode);
      await peer.pc.setRemoteDescription(desc);
  }
  \<close>
  No key of \<open>this.peers\<close> is \<open>null\<close>, so \<open>get\<close> finds nothing when \<open>pendingPeerId\<close> is
  \<open>null\<close>.  \<open>setRemoteDescription\<close> belongs to the WebRTC stack: \<open>accepts\<close> is its verdict on
  a value, \<open>None\<close> when it takes the description, the exception otherwise.
\<close>

definition acceptAnswer ::
  "(jsvalue \<Rightarrow> js_error option) \<Rightarrow> jsstring \<Rightarrow> network_manager
     \<Rightarrow> (js_error + unit) \<times> network_manager" where
  "acceptAnswer accepts answerCode nm =
     (case pendingPeerId nm of
        None \<Rightarrow> (Inl (Error (js ''No pending peer connection.'')), nm)
      | Some pid \<Rightarrow>
          (case peers nm pid of
             None \<Rightarrow> (Inl (Error (js ''No pending peer connection.'')), nm)
           | Some p \<Rightarrow>
               (case decodeSDP answerCode of
                  Inl e \<Rightarrow> (Inl e, nm)
                | Inr desc \<Rightarrow>
                    (case accepts desc of
                       Some e \<Rightarrow> (Inl e, nm)
                     | None \<Rightarrow>
                         (Inr (),
                          nm\<lparr>peers := (peers nm)(pid \<mapsto>
                                p\<lparr>pc := (pc p)\<lparr>remoteDescription := Some desc\<rparr>\<rparr>)\<rparr>)))))"

subsection \<open>Messaging\<close>

text \<open>\<open>ch.send(JSON.stringify(msg))\<close> when \<open>ch?.readyState === 'open'\<close>.\<close>

definition send_if_open :: "jsvalue \<Rightarrow> data_channel option \<Rightarrow> data_channel option" where
  "send_if_open msg c =
     (case c of
        None \<Rightarrow> None
      | Some d \<Rightarrow> if readyState d = Open then Some (d\<lparr>sent := sent d @ [msg]\<rparr>) else Some d)"

definition sendToPeer :: "jsstring \<Rightarrow> jsvalue \<Rightarrow> network_manager \<Rightarrow> network_manager" where
  "sendToPeer peerId msg nm =
     (case peers nm peerId of
        None \<Rightarrow> nm
      | Some p \<Rightarrow> nm\<lparr>peers := (peers nm)(peerId \<mapsto> p\<lparr>ch := send_if_open msg (ch p)\<rparr>)\<rparr>)"

definition broadcast :: "jsvalue \<Rightarrow> network_manager \<Rightarrow> network_manager" where
  "broadcast msg nm =
     nm\<lparr>peers := (\<lambda>k. map_option (\<lambda>p. p\<lparr>ch := send_if_open msg (ch p)\<rparr>) (peers nm k))\<rparr>"

definition sendToHost :: "jsvalue \<Rightarrow> network_manager \<Rightarrow> network_manager" where
  "sendToHost msg nm = nm\<lparr>hostChannel := send_if_open msg (hostChannel nm)\<rparr>"

subsection \<open>Message handlers\<close>

text \<open>
  \<^verbatim>\<open>
  _handleHostMessage(peerId, msg) {
      switch (msg.type) {
          case 'hello': {
              const peer = this.peers.get(peerId);
              if (peer) peer.name = msg.name;
              this.sendToPeer(peerId, { type: 'welcome', version: PROTOCOL_VERSION, peerId });
              if (this.onPeerConnected) this.onPeerConnected(peerId, msg.name);
              return;
          }
          case 'pong': {
              const latency = Date.now() - (msg.ts ?? 0);
              this._latency.set(peerId, latency);
              return;
          }
          case 'ping': {
              this.sendToPeer(peerId, { type: 'pong', ts: msg.ts });
              return;
          }
      }
      if (this.onMessage) this.onMessage(peerId, msg);
  }
  \<close>
  \<open>now\<close> is the value of \<open>Date.now()\<close>.
\<close>

definition handleHostMessage ::
  "(jsvalue \<Rightarrow> jsnum) \<Rightarrow> int \<Rightarrow> jsstring \<Rightarrow> jsvalue \<Rightarrow> network_manager
     \<Rightarrow> (js_error + unit) \<times> network_manager" where
  "handleHostMessage other now peerId msg nm =
     (case js_get msg (js ''type'') of
        Inl e \<Rightarrow> (Inl e, nm)
      | Inr t \<Rightarrow>
          if t = JStr (js ''hello'') then
            (let nm1 = (case peers nm peerId of
                          None \<Rightarrow> nm
                        | Some p \<Rightarrow>
                            nm\<lparr>peers := (peers nm)(peerId \<mapsto> p\<lparr>name := js_prop msg (js ''name'')\<rparr>)\<rparr>);
                 nm2 = sendToPeer peerId
                         (JObj [(js ''type'', JStr (js ''welcome'')),
                                (js ''version'', JNum (Finite (of_int PROTOCOL_VERSION))),
                                (js ''peerId'', JStr peerId)]) nm1
             in call_back (onPeerConnected nm2) (peerId, js_prop msg (js ''name''))
                  (OnPeerConnected peerId (js_prop msg (js ''name''))) nm2)
          else if t = JStr (js ''pong'') then
            (Inr (),
             nm\<lparr>latency := (latency nm)(peerId \<mapsto>
                   js_minus (Finite (of_int now))
                     (ToNumber other (nullish (js_prop msg (js ''ts'')) (JNum (Finite 0)))))\<rparr>)
          else if t = JStr (js ''ping'') then
            (Inr (),
             sendToPeer peerId
               (JObj [(js ''type'', JStr (js ''pong'')), (js ''ts'', js_prop msg (js ''ts''))]) nm)
          else call_back (onMessage nm) (peerId, msg) (OnMessage peerId msg) nm)"

text \<open>
  \<^verbatim>\<open>
  _handlePeerMessage(msg) {
      switch (msg.type) {
          case 'welcome':
              if (this.onConnectedToHost) this.onConnectedToHost();
              return;
          case 'ping':
              this.sendToHost({ type: 'pong', ts: msg.ts });
              return;
          case 'pong': {
              const latency = Date.now() - (msg.ts ?? 0);
              this._latency.set('host', latency);
              return;
          }
      }
      if (this.onMessage) this.onMessage('host', msg);
  }
  \<close>
\<close>

definition handlePeerMessage ::
  "(jsvalue \<Rightarrow> jsnum) \<Rightarrow> int \<Rightarrow> jsvalue \<Rightarrow> network_manager
     \<Rightarrow> (js_error + unit) \<times> network_manager" where
  "handlePeerMessage other now msg nm =
     (case js_get msg (js ''type'') of
        Inl e \<Rightarrow> (Inl e, nm)
      | Inr t \<Rightarrow>
          if t = JStr (js ''welcome'') then
            call_back (onConnectedToHost nm) () OnConnectedToHost nm
          else if t = JStr (js ''ping'') then
            (Inr (),
             sendToHost
               (JObj [(js ''type'', JStr (js ''pong'')), (js ''ts'', js_prop msg (js ''ts''))]) nm)
          else if t = JStr (js ''pong'') then
            (Inr (),
             nm\<lparr>latency := (latency nm)(js ''host'' \<mapsto>
                   js_minus (Finite (of_int now))
                     (ToNumber other (nullish (js_prop msg (js ''ts'')) (JNum (Finite 0)))))\<rparr>)
          else call_back (onMessage nm) (js ''host'', msg) (OnMessage (js ''host'') msg) nm)"

text \<open>
  \<^verbatim>\<open>
  _handlePeerDisconnect(peerId) {
      const peer = this.peers.get(peerId);
      if (!peer) return;
      try { peer.ch?.close(); } catch { /* */ }
      try { peer.pc?.close(); } catch { /* */ }
      this.peers.delete(peerId);
      if (this.onPeerDisconnected) this.onPeerDisconnected(peerId);
  }
  \<close>
  The channel and the connection closed here leave the registry with their record.
\<close>

definition handlePeerDisconnect ::
  "jsstring \<Rightarrow> network_manager \<Rightarrow> (js_error + unit) \<times> network_manager" where
  "handlePeerDisconnect peerId nm =
     (case peers nm peerId of
        None \<Rightarrow> (Inr (), nm)
      | Some p \<Rightarrow>
          call_back (onPeerDisconnected nm) peerId (OnPeerDisconnected peerId)
            (nm\<lparr>peers := (peers nm)(peerId := None)\<rparr>))"

subsection \<open>Event handlers of the host\<close>

text \<open>
  The handlers that \<open>createOffer\<close> and \<open>_setupHostChannel\<close> install for the peer \<open>peerId\<close>.
  \<^verbatim>\<open>
  pc.oniceconnectionstatechange = () => {
      if (pc.iceConnectionState === 'disconnected' || pc.iceConnectionState === 'failed') {
          this._handlePeerDisconnect(peerId);
      }
  };
  ch.onmessage = (e) => {
      try {
          const msg = JSON.parse(e.data);
          this._handleHostMessage(peerId, msg);
      } catch { /* malformed */ }
  };
  ch.onclose = () => this._handlePeerDisconnect(peerId);
  ch.onerror = () => this._handlePeerDisconnect(peerId);
  \<close>
  The state change event carries the state the connection has just entered.
\<close>

definition host_oniceconnectionstatechange ::
  "jsstring \<Rightarrow> ice_connection_state \<Rightarrow> network_manager \<Rightarrow> (js_error + unit) \<times> network_manager" where
  "host_oniceconnectionstatechange peerId st nm =
     (if st = IceDisconnected \<or> st = IceFailed then handlePeerDisconnect peerId nm
      else (Inr (), nm))"

definition host_channel_onmessage ::
  "(jsvalue \<Rightarrow> jsnum) \<Rightarrow> int \<Rightarrow> jsstring \<Rightarrow> jsstring \<Rightarrow> network_manager
     \<Rightarrow> (js_error + unit) \<times> network_manager" where
  "host_channel_onmessage other now peerId data nm =
     (case JSON_parse data of
        Inl e \<Rightarrow> (Inr (), nm)
      | Inr msg \<Rightarrow> (Inr (), snd (handleHostMessage other now peerId msg nm)))"

definition host_channel_onclose ::
  "jsstring \<Rightarrow> network_manager \<Rightarrow> (js_error + unit) \<times> network_manager" where
  "host_channel_onclose peerId nm = handlePeerDisconnect peerId nm"

definition host_channel_onerror ::
  "jsstring \<Rightarrow> network_manager \<Rightarrow> (js_error + unit) \<times> network_manager" where
  "host_channel_onerror peerId nm = handlePeerDisconnect peerId nm"

subsection \<open>Event handlers of the joining side\<close>

text \<open>
  The handlers that \<open>createAnswer\<close> and \<open>_setupPeerChannel\<close> install.
  \<^verbatim>\<open>
  pc.oniceconnectionstatechange = () => {
      if (pc.iceConnectionState === 'disconnected' || pc.iceConnectionState === 'failed') {
          if (this.onPeerDisconnected) this.onPeerDisconnected('host');
      }
  };
  ch.onopen = () => {
      this.sendToHost({ type: 'hello', version: PROTOCOL_VERSION, name: this.localName });
  };
  ch.onmessage = (e) => {
      try {
          const msg = JSON.parse(e.data);
          this._handlePeerMessage(msg);
      } catch { /* malformed */ }
  };
  ch.onclose = () => {
      if (this.onPeerDisconnected) this.onPeerDisconnected('host');
  };
  ch.onerror = () => {
      if (this.onError) this.onError('Connection error with host.');
  };
  \<close>
\<close>

definition peer_oniceconnectionstatechange ::
  "ice_connection_state \<Rightarrow> network_manager \<Rightarrow> (js_error + unit) \<times> network_manager" where
  "peer_oniceconnectionstatechange st nm =
     (if st = IceDisconnected \<or> st = IceFailed
      then call_back (onPeerDisconnected nm) (js ''host'') (OnPeerDisconnected (js ''host'')) nm
      else (Inr (), nm))"

definition peer_channel_onopen :: "network_manager \<Rightarrow> (js_error + unit) \<times> network_manager" where
  "peer_channel_onopen nm =
     (Inr (),
      sendToHost
        (JObj [(js ''type'', JStr (js ''hello'')),
               (js ''version'', JNum (Finite (of_int PROTOCOL_VERSION))),
               (js ''name'', JStr (localName nm))]) nm)"

definition peer_channel_onmessage ::
  "(jsvalue \<Rightarrow> jsnum) \<Rightarrow> int \<Rightarrow> jsstring \<Rightarrow> network_manager
     \<Rightarrow> (js_error + unit) \<times> network_manager" where
  "peer_channel_onmessage other now data nm =
     (case JSON_parse data of
        Inl e \<Rightarrow> (Inr (), nm)
      | Inr msg \<Rightarrow> (Inr (), snd (handlePeerMessage other now msg nm)))"

definition peer_channel_onclose :: "network_manager \<Rightarrow> (js_error + unit) \<times> network_manager" where
  "peer_channel_onclose nm =
     call_back (onPeerDisconnected nm) (js ''host'') (OnPeerDisconnected (js ''host'')) nm"

definition peer_channel_onerror :: "network_manager \<Rightarrow> (js_error + unit) \<times> network_manager" where
  "peer_channel_onerror nm =
     call_back (onError nm) (js ''Connection error with host.'')
       (OnError (js ''Connection error with host.'')) nm"

section \<open>The registry of the host\<close>

text \<open>\<open>this.peers.get(id)\<close> for an \<open>id\<close> that may be \<open>null\<close>.\<close>

definition peers_get :: "network_manager \<Rightarrow> jsstring option \<Rightarrow> peer option" where
  "peers_get nm k = (case k of None \<Rightarrow> None | Some i \<Rightarrow> peers nm i)"

text \<open>The record \<open>createOffer\<close> stores: no remote description, a channel that is not open yet.\<close>

definition offered_peer :: "descriptor \<Rightarrow> peer" where
  "offered_peer desc =
     \<lparr>pc = \<lparr>localDescription = Some desc, remoteDescription = None, iceConnectionState = IceNew\<rparr>,
      ch = Some \<lparr>readyState = Connecting, sent = []\<rparr>, name = JNull\<rparr>"

definition not_yet_connected :: "peer \<Rightarrow> bool" where
  "not_yet_connected p =
     (remoteDescription (pc p) = None
      \<and> (case ch p of None \<Rightarrow> True | Some c \<Rightarrow> readyState c = Connecting))"

lemma encodeSDP_returns:
  assumes "js_string (desc_type d)" and "js_string (desc_sdp d)"
  shows "\<exists>token. encodeSDP d = Inr token"
  using decodeSDP_of_encodeSDP [OF assms] by blast

lemma createOffer_returns:
  assumes "js_string (desc_type d)" and "js_string (desc_sdp d)"
  shows "\<exists>code. createOffer i (Inr d) nm
           = (Inr (i, code), nm\<lparr>peers := (peers nm)(i \<mapsto> offered_peer d), pendingPeerId := Some i\<rparr>)"
proof -
  from encodeSDP_returns [OF assms] obtain token where "encodeSDP d = Inr token" ..
  then show ?thesis
    by (simp add: createOffer_def offered_peer_def Let_def)
qed

text \<open>
  An example: two offers in a row for which \<open>generateId()\<close> draws the same identifier.
\<close>

definition example_offer :: descriptor where
  "example_offer = \<lparr>desc_type = js ''offer'', desc_sdp = js ''v=0''\<rparr>"

definition example_second_offer :: descriptor where
  "example_second_offer = \<lparr>desc_type = js ''offer'', desc_sdp = js ''v=1''\<rparr>"

definition example_after_first_offer :: network_manager where
  "example_after_first_offer =
     snd (createOffer (js ''a1b2c3d'') (Inr example_offer) new_NetworkManager)"

definition example_after_same_id :: network_manager where
  "example_after_same_id =
     snd (createOffer (js ''a1b2c3d'') (Inr example_second_offer) example_after_first_offer)"

text \<open>
  C3, as stated, fails: nothing makes the identifiers of \<open>generateId()\<close> distinct, and when
  the second call draws the identifier of the first, \<open>peers.set\<close> replaces the record of the
  first attempt.  Both calls return, and the only record left is the one of the second.
\<close>

theorem createOffer_same_id_counterexample:
  "\<not> isl (fst (createOffer (js ''a1b2c3d'') (Inr example_offer) new_NetworkManager))
   \<and> \<not> isl (fst (createOffer (js ''a1b2c3d'') (Inr example_second_offer)
                    example_after_first_offer))
   \<and> peers example_after_first_offer = [js ''a1b2c3d'' \<mapsto> offered_peer example_offer]
   \<and> peers example_after_same_id = [js ''a1b2c3d'' \<mapsto> offered_peer example_second_offer]
   \<and> offered_peer example_second_offer \<noteq> offered_peer example_offer"
proof -
  have s1: "js_string (desc_type example_offer)" "js_string (desc_sdp example_offer)"
    and s2: "js_string (desc_type example_second_offer)"
      "js_string (desc_sdp example_second_offer)"
    by (simp_all add: example_offer_def example_second_offer_def js_string_js)
  from createOffer_returns [OF s1, of "js ''a1b2c3d''" new_NetworkManager] obtain code1 where
    c1: "createOffer (js ''a1b2c3d'') (Inr example_offer) new_NetworkManager
      = (Inr (js ''a1b2c3d'', code1),
         new_NetworkManager\<lparr>peers := (peers new_NetworkManager)(js ''a1b2c3d'' \<mapsto>
           offered_peer example_offer), pendingPeerId := Some (js ''a1b2c3d'')\<rparr>)"
    by blast
  from createOffer_returns [OF s2, of "js ''a1b2c3d''" example_after_first_offer] obtain code2
    where c2: "createOffer (js ''a1b2c3d'') (Inr example_second_offer) example_after_first_offer
      = (Inr (js ''a1b2c3d'', code2),
         example_after_first_offer\<lparr>peers := (peers example_after_first_offer)(js ''a1b2c3d'' \<mapsto>
           offered_peer example_second_offer), pendingPeerId := Some (js ''a1b2c3d'')\<rparr>)"
    by blast
  have p1: "peers example_after_first_offer = [js ''a1b2c3d'' \<mapsto> offered_peer example_offer]"
    unfolding example_after_first_offer_def c1 by (simp add: new_NetworkManager_def)
  have p2: "peers example_after_same_id
      = [js ''a1b2c3d'' \<mapsto> offered_peer example_second_offer]"
    unfolding example_after_same_id_def c2 by (simp add: p1)
  have ne: "offered_peer example_second_offer \<noteq> offered_peer example_offer"
    by (simp add: offered_peer_def example_offer_def example_second_offer_def js_def)
  show ?thesis
    using p1 p2 ne by (simp add: c1 c2)
qed

text \<open>
  C3, amended.  Two \<open>createOffer()\<close> calls in a row, with no \<open>acceptAnswer()\<close> between them,
  that both get their local description and whose identifiers differ: both return;
  afterwards \<open>pendingPeerId\<close> is the identifier of the second call, and the record the first
  call stored is still in \<open>peers\<close> under the identifier of the first call, not yet connected.
\<close>

theorem createOffer_twice_distinct_ids:
  assumes "js_string (desc_type d1)" and "js_string (desc_sdp d1)"
    and "js_string (desc_type d2)" and "js_string (desc_sdp d2)"
    and "id1 \<noteq> id2"
  shows "\<exists>code1 code2 nm1 nm2.
           createOffer id1 (Inr d1) nm = (Inr (id1, code1), nm1)
           \<and> createOffer id2 (Inr d2) nm1 = (Inr (id2, code2), nm2)
           \<and> pendingPeerId nm2 = Some id2
           \<and> peers nm2 id1 = Some (offered_peer d1)
           \<and> not_yet_connected (offered_peer d1)"
proof -
  define nm1 where "nm1 = nm\<lparr>peers := (peers nm)(id1 \<mapsto> offered_peer d1), pendingPeerId := Some id1\<rparr>"
  define nm2 where "nm2 = nm1\<lparr>peers := (peers nm1)(id2 \<mapsto> offered_peer d2), pendingPeerId := Some id2\<rparr>"
  from createOffer_returns [OF assms(1,2)] obtain code1 where
    c1: "createOffer id1 (Inr d1) nm = (Inr (id1, code1), nm1)"
    unfolding nm1_def by blast
  from createOffer_returns [OF assms(3,4)] obtain code2 where
    c2: "createOffer id2 (Inr d2) nm1 = (Inr (id2, code2), nm2)"
    unfolding nm2_def by blast
  have "pendingPeerId nm2 = Some id2"
    by (simp add: nm2_def)
  moreover have "peers nm2 id1 = Some (offered_peer d1)"
    using assms(5) by (simp add: nm2_def nm1_def)
  moreover have "not_yet_connected (offered_peer d1)"
    by (simp add: offered_peer_def not_yet_connected_def)
  ultimately show ?thesis
    using c1 c2 by blast
qed

theorem createOffer_twice_distinct_ids_witness:
  "js_string (desc_type example_offer) \<and> js_string (desc_sdp example_offer)
   \<and> js_string (desc_type example_second_offer) \<and> js_string (desc_sdp example_second_offer)
   \<and> js ''a1b2c3d'' \<noteq> js ''e4f5g6h''
   \<and> (\<exists>code1 code2 nm1 nm2.
         createOffer (js ''a1b2c3d'') (Inr example_offer) new_NetworkManager
           = (Inr (js ''a1b2c3d'', code1), nm1)
         \<and> createOffer (js ''e4f5g6h'') (Inr example_second_offer) nm1
             = (Inr (js ''e4f5g6h'', code2), nm2)
         \<and> pendingPeerId nm2 = Some (js ''e4f5g6h'')
         \<and> peers nm2 (js ''a1b2c3d'') = Some (offered_peer example_offer)
         \<and> not_yet_connected (offered_peer example_offer))"
proof -
  have ne: "js ''a1b2c3d'' \<noteq> js ''e4f5g6h''"
    by (simp add: js_def)
  have s: "js_string (desc_type example_offer)" "js_string (desc_sdp example_offer)"
    "js_string (desc_type example_second_offer)" "js_string (desc_sdp example_second_offer)"
    by (simp_all add: example_offer_def example_second_offer_def js_string_js)
  from createOffer_twice_distinct_ids [OF s ne, of new_NetworkManager] s ne
  show ?thesis by blast
qed

text \<open>
  C5.  When the PendingSlot is empty, that is \<open>pendingPeerId\<close> is \<open>null\<close> or names no record
  of \<open>peers\<close>, \<open>acceptAnswer\<close> throws the error "No pending peer connection." for every
  token, and leaves the manager, with \<open>peers\<close> and \<open>pendingPeerId\<close>, as it was.
\<close>

theorem acceptAnswer_no_pending:
  assumes "peers_get nm (pendingPeerId nm) = None"
  shows "acceptAnswer accepts token nm = (Inl (Error (js ''No pending peer connection.'')), nm)"
  using assms by (simp add: acceptAnswer_def peers_get_def split: option.splits)

theorem acceptAnswer_no_pending_witness:
  "peers_get (new_NetworkManager\<lparr>pendingPeerId := Some (js ''a1b2c3d'')\<rparr>)
     (pendingPeerId (new_NetworkManager\<lparr>pendingPeerId := Some (js ''a1b2c3d'')\<rparr>)) = None
   \<and> acceptAnswer (\<lambda>v. None) (js ''e30='') (new_NetworkManager\<lparr>pendingPeerId := Some (js ''a1b2c3d'')\<rparr>)
       = (Inl (Error (js ''No pending peer connection.'')),
          new_NetworkManager\<lparr>pendingPeerId := Some (js ''a1b2c3d'')\<rparr>)"
  using acceptAnswer_no_pending [of "new_NetworkManager\<lparr>pendingPeerId := Some (js ''a1b2c3d'')\<rparr>"
      "\<lambda>v. None" "js ''e30=''"]
  by (simp add: peers_get_def new_NetworkManager_def)

subsection \<open>Accepting an answer\<close>

text \<open>
  An example: the host has offered a connection under the identifier \<open>b7k2m9q\<close> and receives
  the token of the answer \<open>{type: "answer", sdp: "v=0"}\<close>.
\<close>

definition example_pending :: network_manager where
  "example_pending =
     new_NetworkManager\<lparr>isHost := True,
       peers := [js ''b7k2m9q'' \<mapsto> offered_peer example_offer],
       pendingPeerId := Some (js ''b7k2m9q'')\<rparr>"

definition example_answer_code :: jsstring where
  "example_answer_code = js ''eyJ0eXBlIjoiYW5zd2VyIiwic2RwIjoidj0wIn0=''"

definition example_answer :: jsvalue where
  "example_answer = JObj [(js ''type'', JStr (js ''answer'')), (js ''sdp'', JStr (js ''v=0''))]"

lemma decodeSDP_example_answer: "decodeSDP example_answer_code = Inr example_answer"
  unfolding example_answer_code_def example_answer_def by code_simp

lemma acceptAnswer_example:
  "acceptAnswer (\<lambda>v. None) example_answer_code example_pending
     = (Inr (),
        example_pending\<lparr>peers := (peers example_pending)(js ''b7k2m9q'' \<mapsto>
          (offered_peer example_offer)\<lparr>pc := (pc (offered_peer example_offer))
             \<lparr>remoteDescription := Some example_answer\<rparr>\<rparr>)\<rparr>)"
  by (simp add: acceptAnswer_def decodeSDP_example_answer example_pending_def)

text \<open>
  C4, as stated, fails: a successful \<open>acceptAnswer\<close> does not empty \<open>pendingPeerId\<close>.
\<close>

theorem acceptAnswer_clears_pending_counterexample:
  "fst (acceptAnswer (\<lambda>v. None) example_answer_code example_pending) = Inr ()
   \<and> pendingPeerId (snd (acceptAnswer (\<lambda>v. None) example_answer_code example_pending)) \<noteq> None"
  by (simp add: acceptAnswer_example) (simp add: example_pending_def)

text \<open>
  C4, amended.  For every state with a pending connection attempt \<open>b\<close>, a successful
  \<open>acceptAnswer(token)\<close> stores the decoded description as the remote description of \<open>b\<close>
  and changes nothing else: \<open>pendingPeerId\<close> still names \<open>b\<close>.  A subsequent \<open>createOffer()\<close>
  returns and replaces \<open>pendingPeerId\<close> by the identifier it allocates.
\<close>

theorem acceptAnswer_keeps_pending:
  assumes "pendingPeerId nm = Some b" and "peers nm b = Some p"
    and "acceptAnswer accepts token nm = (Inr (), nm')"
    and "js_string (desc_type d)" and "js_string (desc_sdp d)"
  shows "pendingPeerId nm' = Some b
         \<and> (\<exists>desc. decodeSDP token = Inr desc \<and> accepts desc = None
               \<and> nm' = nm\<lparr>peers := (peers nm)(b \<mapsto> p\<lparr>pc := (pc p)\<lparr>remoteDescription := Some desc\<rparr>\<rparr>)\<rparr>)
         \<and> (\<exists>code nm''. createOffer i (Inr d) nm' = (Inr (i, code), nm'')
               \<and> pendingPeerId nm'' = Some i)"
proof -
  from assms(1-3) obtain desc where
    desc: "decodeSDP token = Inr desc" "accepts desc = None"
      "nm' = nm\<lparr>peers := (peers nm)(b \<mapsto> p\<lparr>pc := (pc p)\<lparr>remoteDescription := Some desc\<rparr>\<rparr>)\<rparr>"
    by (auto simp: acceptAnswer_def split: sum.splits option.splits)
  then have "pendingPeerId nm' = Some b"
    using assms(1) by simp
  moreover from createOffer_returns [OF assms(4,5), of i nm'] obtain code where
    "createOffer i (Inr d) nm'
       = (Inr (i, code), nm'\<lparr>peers := (peers nm')(i \<mapsto> offered_peer d), pendingPeerId := Some i\<rparr>)"
    by blast
  then have "\<exists>code nm''. createOffer i (Inr d) nm' = (Inr (i, code), nm'')
      \<and> pendingPeerId nm'' = Some i"
    by simp
  ultimately show ?thesis
    using desc by blast
qed

theorem acceptAnswer_keeps_pending_witness:
  "pendingPeerId example_pending = Some (js ''b7k2m9q'')
   \<and> peers example_pending (js ''b7k2m9q'') = Some (offered_peer example_offer)
   \<and> fst (acceptAnswer (\<lambda>v. None) example_answer_code example_pending) = Inr ()
   \<and> js_string (desc_type example_offer) \<and> js_string (desc_sdp example_offer)
   \<and> pendingPeerId (snd (acceptAnswer (\<lambda>v. None) example_answer_code example_pending))
       = Some (js ''b7k2m9q'')
   \<and> (\<exists>code nm''.
         createOffer (js ''c3x8n1d'') (Inr example_offer)
           (snd (acceptAnswer (\<lambda>v. None) example_answer_code example_pending))
           = (Inr (js ''c3x8n1d'', code), nm'')
         \<and> pendingPeerId nm'' = Some (js ''c3x8n1d''))"
proof -
  have h: "pendingPeerId example_pending = Some (js ''b7k2m9q'')"
    "peers example_pending (js ''b7k2m9q'') = Some (offered_peer example_offer)"
    "js_string (desc_type example_offer)" "js_string (desc_sdp example_offer)"
    by (simp_all add: example_pending_def example_offer_def js_string_js)
  have r: "acceptAnswer (\<lambda>v. None) example_answer_code example_pending
      = (Inr (), snd (acceptAnswer (\<lambda>v. None) example_answer_code example_pending))"
    by (simp add: acceptAnswer_example)
  from acceptAnswer_keeps_pending [OF h(1,2) r h(3,4), of "js ''c3x8n1d''"] h r
  show ?thesis
    by (metis fst_conv)
qed

section \<open>Disconnects\<close>

text \<open>How often the collaborator was told that \<open>peerId\<close> disconnected.\<close>

definition disconnect_notifications :: "jsstring \<Rightarrow> network_manager \<Rightarrow> nat" where
  "disconnect_notifications peerId nm = count_list (calls nm) (OnPeerDisconnected peerId)"

text \<open>
  On the host a second trigger for the same peer finds no record: whatever the first call
  did, the second changes nothing and calls nobody.
\<close>

lemma handlePeerDisconnect_removes:
  "peers (snd (handlePeerDisconnect peerId nm)) peerId = None"
  by (simp add: handlePeerDisconnect_def call_back_def split: option.splits)

lemma handlePeerDisconnect_absent:
  "peers nm peerId = None \<Longrightarrow> handlePeerDisconnect peerId nm = (Inr (), nm)"
  by (simp add: handlePeerDisconnect_def)

lemma handlePeerDisconnect_idempotent:
  "handlePeerDisconnect peerId (snd (handlePeerDisconnect peerId nm))
     = (Inr (), snd (handlePeerDisconnect peerId nm))"
  by (rule handlePeerDisconnect_absent) (rule handlePeerDisconnect_removes)

lemma handlePeerDisconnect_notifies_once:
  assumes "peers nm peerId = Some p" and "onPeerDisconnected nm = Some f"
  shows "disconnect_notifications peerId (snd (handlePeerDisconnect peerId nm))
       = Suc (disconnect_notifications peerId nm)"
  using assms
  by (simp add: handlePeerDisconnect_def call_back_def disconnect_notifications_def)

lemma host_disconnect_paths_notify_once:
  assumes "peers nm peerId = Some p" and "onPeerDisconnected nm = Some f"
    and "st = IceDisconnected \<or> st = IceFailed"
  shows "disconnect_notifications peerId
           (snd (host_channel_onclose peerId (snd (host_oniceconnectionstatechange peerId st nm))))
         = Suc (disconnect_notifications peerId nm)"
    and "peers (snd (host_channel_onclose peerId
           (snd (host_oniceconnectionstatechange peerId st nm)))) peerId = None"
  using assms handlePeerDisconnect_idempotent [of peerId nm]
    handlePeerDisconnect_notifies_once [OF assms(1,2)] handlePeerDisconnect_removes [of peerId nm]
  by (auto simp: host_channel_onclose_def host_oniceconnectionstatechange_def)

text \<open>
  An example on the joining side: a manager whose \<open>onPeerDisconnected\<close> is set, as \<open>app.js\<close>
  does before \<open>createAnswer\<close>.
\<close>

definition example_joiner :: network_manager where
  "example_joiner = new_NetworkManager\<lparr>onPeerDisconnected := Some (\<lambda>peerId. None)\<rparr>"

text \<open>
  C6.  On the joining side one loss of connectivity that reaches both paths, the ICE state
  \<open>failed\<close> and then the close of the channel, is reported twice: nothing keeps the second
  handler from calling \<open>onPeerDisconnected('host')\<close> again.
\<close>

theorem joiner_disconnect_notified_twice:
  "disconnect_notifications (js ''host'')
     (snd (peer_channel_onclose (snd (peer_oniceconnectionstatechange IceFailed example_joiner))))
   = 2"
  by (simp add: peer_channel_onclose_def peer_oniceconnectionstatechange_def call_back_def
      disconnect_notifications_def example_joiner_def new_NetworkManager_def)

section \<open>Inbound frames\<close>

text \<open>
  The envelope of the protocol: an object whose \<open>type\<close> is a string.
\<close>

definition is_envelope :: "jsvalue \<Rightarrow> bool" where
  "is_envelope v = (case js_prop v (js ''type'') of JStr t \<Rightarrow> True | _ \<Rightarrow> False)"

text \<open>No handler of \<open>onmessage\<close> lets an exception out, whatever the frame.\<close>

lemma host_channel_onmessage_no_exception:
  "fst (host_channel_onmessage other now peerId data nm) = Inr ()"
  by (simp add: host_channel_onmessage_def split: sum.splits)

lemma peer_channel_onmessage_no_exception:
  "fst (peer_channel_onmessage other now data nm) = Inr ()"
  by (simp add: peer_channel_onmessage_def split: sum.splits)

lemma JSON_parse_example_not_json: "JSON_parse (js ''{not-json'') = Inl SyntaxError"
  by code_simp

lemma JSON_parse_example_empty_object: "JSON_parse (js ''{}'') = Inr (JObj [])"
  by code_simp

text \<open>An example on the host: a manager whose \<open>onMessage\<close> is set.\<close>

definition example_host :: network_manager where
  "example_host = new_NetworkManager\<lparr>isHost := True, onMessage := Some (\<lambda>m. None)\<rparr>"

text \<open>
  C7, as stated, fails: the frame \<open>{}\<close> is JSON but no envelope (it has no \<open>type\<close>), and the
  router hands it to \<open>onMessage\<close>.
\<close>

theorem malformed_frame_counterexample:
  "\<not> is_envelope (JObj [])
   \<and> JSON_parse (js ''{}'') = Inr (JObj [])
   \<and> calls (snd (host_channel_onmessage (\<lambda>v. NaN) 0 (js ''b7k2m9q'') (js ''{}'') example_host))
       = [OnMessage (js ''b7k2m9q'') (JObj [])]
   \<and> calls example_host = []"
  by (simp add: JSON_parse_example_empty_object host_channel_onmessage_def handleHostMessage_def
      js_get_def js_prop_def obj_get_def call_back_def example_host_def new_NetworkManager_def
      is_envelope_def)

text \<open>
  C7, amended.  For every inbound frame on which \<open>JSON.parse\<close> throws, and for the frame
  that parses to \<open>null\<close>, the message router drops it silently, on the host and on the
  joining side: no exception leaves the \<open>onmessage\<close> handler, no callback is called, and the
  manager is unchanged.
\<close>

theorem unparseable_frame_dropped:
  assumes "JSON_parse data = Inl e \<or> JSON_parse data = Inr JNull"
  shows "host_channel_onmessage other now peerId data nm = (Inr (), nm)
         \<and> peer_channel_onmessage other now data nm = (Inr (), nm)"
  using assms
  by (auto simp: host_channel_onmessage_def peer_channel_onmessage_def handleHostMessage_def
      handlePeerMessage_def js_get_def)

theorem unparseable_frame_dropped_witness:
  "(JSON_parse (js ''{not-json'') = Inl SyntaxError \<or> JSON_parse (js ''{not-json'') = Inr JNull)
   \<and> host_channel_onmessage (\<lambda>v. NaN) 0 (js ''b7k2m9q'') (js ''{not-json'') example_host
       = (Inr (), example_host)
   \<and> peer_channel_onmessage (\<lambda>v. NaN) 0 (js ''{not-json'') example_host = (Inr (), example_host)"
  using unparseable_frame_dropped [of "js ''{not-json''" SyntaxError "\<lambda>v. NaN" 0 "js ''b7k2m9q''"
      example_host]
  by (simp add: JSON_parse_example_not_json)

section \<open>Latency probes\<close>


lemma js_get_type:
  "js_prop msg (js ''type'') = JStr t \<Longrightarrow> js_get msg (js ''type'') = Inr (JStr t)"
  by (auto simp: js_get_def js_prop_def)

lemma message_types_distinct:
  "js ''ping'' \<noteq> js ''hello''" "js ''ping'' \<noteq> js ''pong''" "js ''ping'' \<noteq> js ''welcome''"
  "js ''pong'' \<noteq> js ''hello''" "js ''pong'' \<noteq> js ''welcome''" "js ''pong'' \<noteq> js ''ping''"
  by (simp_all add: js_def)



subsection \<open>Rounding to a double\<close>


lemma bit_length_1: "bit_length (Suc 0) = Suc 0"
  by (simp add: bit_length.simps [of "Suc 0"] bit_length.simps [of 0])

lemma bit_length_bounds:
  "0 < n \<Longrightarrow> 2 ^ (bit_length n - 1) \<le> n \<and> n < 2 ^ bit_length n"
proof (induction n rule: bit_length.induct)
  case (1 n)
  show ?case
  proof (cases "n div 2 = 0")
    case True
    with "1.prems" have "n = 1" by simp
    then show ?thesis
      by (simp add: bit_length_1)
  next
    case False
    then have pos: "0 < n div 2" by simp
    from "1.IH" [OF _ pos] "1.prems" have ih:
      "2 ^ (bit_length (n div 2) - 1) \<le> n div 2" "n div 2 < 2 ^ bit_length (n div 2)"
      by simp_all
    have bl: "bit_length n = Suc (bit_length (n div 2))"
      using "1.prems" by (subst bit_length.simps) simp
    have k: "0 < bit_length (n div 2)"
      using pos by (subst bit_length.simps) simp
    have "2 ^ bit_length (n div 2) = 2 * 2 ^ (bit_length (n div 2) - 1)"
      using k by (cases "bit_length (n div 2)") simp_all
    also have "\<dots> \<le> 2 * (n div 2)" using ih(1) by simp
    also have "\<dots> \<le> n" by simp
    finally have lo: "2 ^ (bit_length n - 1) \<le> n" by (simp add: bl)
    have "n < 2 * (n div 2) + 2" by simp
    also have "\<dots> \<le> 2 * 2 ^ bit_length (n div 2)" using ih(2) by simp
    finally have "n < 2 ^ bit_length n" by (simp add: bl)
    with lo show ?thesis by simp
  qed
qed

lemma bit_length_pos: "0 < n \<Longrightarrow> 0 < bit_length n"
  by (subst bit_length.simps) simp

text \<open>\<open>floor_log2\<close> is the exponent of the binade of its argument.\<close>

lemma floor_log2_bounds:
  assumes "0 < a"
  shows "2 powi (floor_log2 a) \<le> a" and "a < 2 powi (floor_log2 a + 1)"
proof -
  obtain p q where pq: "quotient_of a = (p, q)" by (cases "quotient_of a")
  then have q: "0 < q" and a: "a = of_int p / of_int q"
    by (rule quotient_of_denom_pos, rule quotient_of_div)
  from assms a q have p: "0 < p"
    by (simp add: zero_less_divide_iff)
  define bp where "bp = bit_length (nat p)"
  define bq where "bq = bit_length (nat q)"
  define d where "d = int bp - int bq"
  have nat_bounds: "(2::rat) ^ (bit_length n - 1) \<le> of_nat n \<and> of_nat n < (2::rat) ^ bit_length n"
    if "0 < n" for n
  proof -
    from bit_length_bounds [OF that]
    have "(of_nat (2 ^ (bit_length n - 1)) :: rat) \<le> of_nat n"
      and "(of_nat n :: rat) < of_nat (2 ^ bit_length n)"
      by (simp_all only: of_nat_le_iff of_nat_less_iff)
    then show ?thesis by simp
  qed
  have pn: "(of_int p :: rat) = of_nat (nat p)" and qn: "(of_int q :: rat) = of_nat (nat q)"
    using p q by simp_all
  have pb: "(2::rat) ^ (bp - 1) \<le> of_int p" "of_int p < (2::rat) ^ bp"
    unfolding bp_def pn using nat_bounds [of "nat p"] p by simp_all
  have qb: "(2::rat) ^ (bq - 1) \<le> of_int q" "of_int q < (2::rat) ^ bq"
    unfolding bq_def qn using nat_bounds [of "nat q"] q by simp_all
  have bp0: "0 < bp" and bq0: "0 < bq"
    using p q by (simp_all add: bp_def bq_def bit_length_pos)
  have two_bp: "(2::rat) ^ bp = 2 * 2 ^ (bp - 1)" and two_bq: "(2::rat) ^ bq = 2 * 2 ^ (bq - 1)"
    using bp0 bq0 by (cases bp, simp_all) (cases bq, simp_all)
  have dpow: "(2::rat) powi d = 2 ^ bp / 2 ^ bq"
    unfolding d_def by (simp add: power_int_diff)
  have qpos: "(0::rat) < of_int q" using q by simp
  have upper: "a < 2 powi (d + 1)"
  proof -
    have "of_int p * (2::rat) ^ bq < 2 ^ bp * (2 * of_int q)"
    proof -
      have "of_int p * (2::rat) ^ bq < 2 ^ bp * 2 ^ bq"
        using pb(2) by simp
      also have "\<dots> \<le> 2 ^ bp * (2 * of_int q)"
        using qb(1) two_bq by simp
      finally show ?thesis .
    qed
    then have "of_int p / of_int q < 2 * (2 ^ bp / (2::rat) ^ bq)"
      using qpos by (simp add: field_simps)
    moreover have "(2::rat) powi (d + 1) = 2 * (2 ^ bp / 2 ^ bq)"
      by (simp add: power_int_add dpow)
    ultimately show ?thesis
      by (simp only: a)
  qed
  have lower: "2 powi (d - 1) \<le> a"
  proof -
    have "(2::rat) ^ bp * of_int q \<le> 2 * of_int p * 2 ^ bq"
    proof -
      have "(2::rat) ^ bp * of_int q \<le> 2 ^ bp * 2 ^ bq"
        using qb(2) by simp
      also have "\<dots> \<le> (2 * of_int p) * 2 ^ bq"
        using pb(1) two_bp by simp
      finally show ?thesis .
    qed
    then have "(2 ^ bp / (2::rat) ^ bq) / 2 \<le> of_int p / of_int q"
      using qpos by (simp add: field_simps)
    moreover have "(2::rat) powi (d - 1) = (2 ^ bp / 2 ^ bq) / 2"
      by (simp add: power_int_diff dpow)
    ultimately show ?thesis
      by (simp only: a)
  qed
  have fl: "floor_log2 a = (if 2 powi d \<le> a then d else d - 1)"
    by (simp add: floor_log2_def pq d_def bp_def bq_def Let_def)
  show "2 powi (floor_log2 a) \<le> a"
    using lower by (simp add: fl)
  show "a < 2 powi (floor_log2 a + 1)"
    using upper by (auto simp: fl not_le)
qed










text \<open>
  The binade of a positive number determines \<open>floor_log2\<close>, and the nearest integer
  determines \<open>round_half_even\<close>, with ties to the even one.
\<close>

lemma floor_log2_unique:
  assumes "2 powi e \<le> a" "a < 2 powi (e + 1)"
  shows "floor_log2 a = e"
proof -
  have "(0::rat) < 2 powi e" by (simp add: zero_less_power_int)
  then have pos: "0 < a" using assms(1) by (rule less_le_trans)
  note b = floor_log2_bounds [OF pos]
  have "2 powi e < (2::rat) powi (floor_log2 a + 1)"
    using assms(1) b(2) by (rule le_less_trans)
  then have 1: "e < floor_log2 a + 1"
    by (metis power_int_increasing not_less one_le_numeral)
  have "2 powi (floor_log2 a) < (2::rat) powi (e + 1)"
    using b(1) assms(2) by (rule le_less_trans)
  then have 2: "floor_log2 a < e + 1"
    by (metis power_int_increasing not_less one_le_numeral)
  from 1 2 show ?thesis by simp
qed

lemma round_half_even_nearest:
  assumes "\<bar>x - of_int k\<bar> < 1 / 2"
  shows "round_half_even x = k"
proof (cases "of_int k \<le> x")
  case True
  with assms have "x < of_int k + 1 / 2" by simp
  with True have f: "\<lfloor>x\<rfloor> = k" by (simp add: floor_eq_iff)
  with assms True show ?thesis
    by (simp add: round_half_even_def)
next
  case False
  with assms have "of_int k - 1 / 2 < x" "x < of_int k" by simp_all
  then have f: "\<lfloor>x\<rfloor> = k - 1" by (simp add: floor_eq_iff)
  with assms False show ?thesis
    by (simp add: round_half_even_def)
qed

lemma round_half_even_tie:
  assumes "x = of_int k + 1 / 2"
  shows "round_half_even x = (if even k then k else k + 1)"
proof -
  have f: "\<lfloor>x\<rfloor> = k" by (simp add: floor_eq_iff assms)
  show ?thesis
    by (simp add: round_half_even_def f) (simp add: assms)
qed

lemma to_double_rounds:
  assumes e: "2 powi e \<le> a" "a < 2 powi (e + 1)" "- 1022 \<le> e"
    and k: "\<bar>a / 2 powi (e - 52) - of_int k\<bar> < 1 / 2 \<or>
            a / 2 powi (e - 52) = of_int k + 1 / 2 \<and> even k \<or>
            a / 2 powi (e - 52) = of_int (k - 1) + 1 / 2 \<and> odd (k - 1)"
    and m: "of_int k * 2 powi (e - 52) = m" "0 < m" "m < 2 ^ 1024"
  shows "to_double negative a = Finite (if negative then - m else m)"
proof -
  have fl: "max (floor_log2 a) (- 1022) = e"
    using floor_log2_unique [OF e(1,2)] e(3) by simp
  have r: "round_half_even (a / 2 powi (e - 52)) = k"
    using k round_half_even_nearest [of "a / 2 powi (e - 52)" k]
      round_half_even_tie [of "a / 2 powi (e - 52)" k]
      round_half_even_tie [of "a / 2 powi (e - 52)" "k - 1"]
    by auto
  show ?thesis
    unfolding to_double_def Let_def fl r m(1) using m(2,3) by simp
qed

lemma round_double_tenth:
  "round_double (1 / 10) = Finite (3602879701896397 / 36028797018963968)"
proof -
  have "to_double False (1 / 10)
      = Finite (if False then - (3602879701896397 / 36028797018963968)
                else 3602879701896397 / 36028797018963968)"
    by (rule to_double_rounds [where e = "- 4" and k = 7205759403792794])
       (simp_all add: power_int_minus_divide)
  then show ?thesis by (simp add: round_double_def)
qed

lemma js_minus_tenth:
  "js_minus (Finite 1042) (Finite (3602879701896397 / 36028797018963968))
     = Finite (2291162329959629 / 2199023255552)"
proof -
  have "to_double False (37538403614058558259 / 36028797018963968)
      = Finite (if False then - (2291162329959629 / 2199023255552)
                else 2291162329959629 / 2199023255552)"
    by (rule to_double_rounds [where e = 10 and k = 4582324659919258])
       (simp_all add: power_int_minus_divide)
  then show ?thesis by (simp add: round_double_def)
qed

lemma round_double_inexact: "round_double 9007199254740993 = Finite 9007199254740992"
proof -
  have "to_double False 9007199254740993
      = Finite (if False then - 9007199254740992 else 9007199254740992)"
    by (rule to_double_rounds [where e = 53 and k = 4503599627370496])
       (simp_all add: power_int_minus_divide)
  then show ?thesis by (simp add: round_double_def)
qed

subsection \<open>Probes and responses\<close>

text \<open>
  A response whose \<open>ts\<close> is a number: the stored latency is the difference, in the arithmetic
  of the language, of the clock and \<open>ts\<close>.
\<close>

lemma handleHostMessage_pong:
  assumes "js_prop msg (js ''type'') = JStr (js ''pong'')"
    and "js_prop msg (js ''ts'') = JNum ts"
  shows "handleHostMessage other now peerId msg nm
       = (Inr (), nm\<lparr>latency := (latency nm)(peerId \<mapsto> js_minus (Finite (of_int now)) ts)\<rparr>)"
  using assms message_types_distinct
  by (simp add: handleHostMessage_def js_get_type nullish_def ToNumber_def)





text \<open>
  The scenario of the specification: a probe with \<open>ts: 1000\<close>, its response handled at
  \<open>1042\<close>.
\<close>

definition example_connected_host :: network_manager where
  "example_connected_host =
     new_NetworkManager\<lparr>isHost := True,
       peers := [js ''b7k2m9q'' \<mapsto>
         \<lparr>pc = \<lparr>localDescription = Some example_offer, remoteDescription = Some example_answer,
                 iceConnectionState = IceConnected\<rparr>,
          ch = Some \<lparr>readyState = Open, sent = []\<rparr>, name = JStr (js ''Ann'')\<rparr>]\<rparr>"





text \<open>
  Numbers that are not integers are subtracted as doubles: with \<open>ts: 0.1\<close>, the double next
  to one tenth, the response handled at \<open>1042\<close> stores the double next to \<open>1041.9\<close>.
\<close>

definition example_pong_tenth :: jsvalue where
  "example_pong_tenth =
     JObj [(js ''type'', JStr (js ''pong'')), (js ''ts'', JNum (round_double (1 / 10)))]"

lemma latency_of_a_tenth:
  "latency (snd (handleHostMessage (\<lambda>v. NaN) 1042 (js ''b7k2m9q'') example_pong_tenth
      example_connected_host)) (js ''b7k2m9q'')
     = Some (Finite (2291162329959629 / 2199023255552))"
proof -
  have tt: "js ''ts'' \<noteq> js ''type''" by (simp add: js_def)
  have h: "js_prop example_pong_tenth (js ''type'') = JStr (js ''pong'')"
    "js_prop example_pong_tenth (js ''ts'') = JNum (Finite (3602879701896397 / 36028797018963968))"
    using tt by (simp_all add: example_pong_tenth_def js_prop_def obj_get_def round_double_tenth)
  show ?thesis
    by (simp add: handleHostMessage_pong [OF h] js_minus_tenth del: js_minus.simps)
qed

section \<open>What decodeSDP rejects\<close>

text \<open>The shape of a descriptor: an object with the fields \<open>type\<close> and \<open>sdp\<close>.\<close>

definition has_descriptor_shape :: "jsvalue \<Rightarrow> bool" where
  "has_descriptor_shape v =
     (case v of
        JObj ps \<Rightarrow> map_of ps (js ''type'') \<noteq> None \<and> map_of ps (js ''sdp'') \<noteq> None
      | _ \<Rightarrow> False)"

subsection \<open>The encoding scheme\<close>

text \<open>
  A token of the scheme is the base64 form of the UTF-8 octets of a JSON text.  The three
  layers are stated here as the standards state them, without reference to the functions
  that decode.
\<close>

text \<open>
  The lexical grammar of JSON (ECMA-404, ECMA-262 24.5.1).  The characters between the
  quotes of a string literal: any character from \<open>U+0020\<close> on other than the quote and
  the backslash, a backslash with one of \<open>" \ / b f n r t\<close>, or \<open>\u\<close> with four hexadecimal
  digits.
\<close>

inductive string_body :: "jsstring \<Rightarrow> bool" where
  body_end: "string_body []"
| body_char: "32 \<le> c \<Longrightarrow> c \<noteq> 34 \<Longrightarrow> c \<noteq> 92 \<Longrightarrow> string_body cs \<Longrightarrow> string_body (c # cs)"
| body_escape:
    "e \<in> set [34, 92, 47, 98, 102, 110, 114, 116] \<Longrightarrow> string_body cs
       \<Longrightarrow> string_body (92 # e # cs)"
| body_unicode:
    "is_hex_digit h1 \<Longrightarrow> is_hex_digit h2 \<Longrightarrow> is_hex_digit h3 \<Longrightarrow> is_hex_digit h4
       \<Longrightarrow> string_body cs \<Longrightarrow> string_body (92 # 117 # h1 # h2 # h3 # h4 # cs)"

text \<open>
  A number literal: an optional minus, an integer part that is \<open>0\<close> or starts with another
  digit, an optional fraction \<open>.\<close> with digits, an optional exponent \<open>e\<close> or \<open>E\<close> with an
  optional sign and digits.
\<close>

definition digits :: "jsstring \<Rightarrow> bool" where
  "digits ds = (ds \<noteq> [] \<and> list_all is_digit ds)"

definition number_literal :: "jsstring \<Rightarrow> bool" where
  "number_literal l =
     (\<exists>minus ip frac ex.
        l = minus @ ip @ frac @ ex
        \<and> (minus = [] \<or> minus = [45])
        \<and> digits ip \<and> (hd ip = 48 \<longrightarrow> ip = [48])
        \<and> (frac = [] \<or> (\<exists>ds. frac = 46 # ds \<and> digits ds))
        \<and> (ex = [] \<or> (\<exists>e sg ds. ex = e # sg @ ds \<and> (e = 101 \<or> e = 69)
                           \<and> (sg = [] \<or> sg = [43] \<or> sg = [45]) \<and> digits ds)))"

text \<open>The spelling of a token; the value of a string or a number plays no part.\<close>

inductive json_lexeme :: "jsstring \<Rightarrow> json_token \<Rightarrow> bool" where
  "json_lexeme [123] TLBrace"
| "json_lexeme [125] TRBrace"
| "json_lexeme [91] TLBracket"
| "json_lexeme [93] TRBracket"
| "json_lexeme [58] TColon"
| "json_lexeme [44] TComma"
| "string_body b \<Longrightarrow> json_lexeme (34 # b @ [34]) (TString v)"
| "number_literal l \<Longrightarrow> json_lexeme l (TNumber n)"
| "json_lexeme (js ''true'') TTrue"
| "json_lexeme (js ''false'') TFalse"
| "json_lexeme (js ''null'') TNull"

text \<open>A text as a sequence of tokens with white space (tab, line feed, carriage return, space) around them.\<close>

inductive json_lexes :: "jsstring \<Rightarrow> json_token list \<Rightarrow> bool" where
  lex_end: "json_lexes [] []"
| lex_space: "c \<in> set [9, 10, 13, 32] \<Longrightarrow> json_lexes cs ts \<Longrightarrow> json_lexes (c # cs) ts"
| lex_token: "json_lexeme l t \<Longrightarrow> json_lexes cs ts \<Longrightarrow> json_lexes (l @ cs) (t # ts)"

text \<open>
  The syntactic grammar: a value is a string, a number, a literal, an array of values
  separated by commas, or an object of members \<open>string : value\<close> separated by commas.
\<close>

inductive json_value :: "json_token list \<Rightarrow> bool"
  and json_elements :: "json_token list \<Rightarrow> bool"
  and json_members :: "json_token list \<Rightarrow> bool" where
  value_string: "json_value [TString s]"
| value_number: "json_value [TNumber n]"
| value_true: "json_value [TTrue]"
| value_false: "json_value [TFalse]"
| value_null: "json_value [TNull]"
| empty_array: "json_value [TLBracket, TRBracket]"
| array: "json_elements es \<Longrightarrow> json_value (TLBracket # es @ [TRBracket])"
| empty_object: "json_value [TLBrace, TRBrace]"
| object: "json_members ms \<Longrightarrow> json_value (TLBrace # ms @ [TRBrace])"
| one_element: "json_value v \<Longrightarrow> json_elements v"
| more_elements: "json_elements es \<Longrightarrow> json_value v \<Longrightarrow> json_elements (es @ TComma # v)"
| one_member: "json_value v \<Longrightarrow> json_members (TString k # TColon # v)"
| more_members:
    "json_members ms \<Longrightarrow> json_value v \<Longrightarrow> json_members (ms @ TComma # TString k # TColon # v)"

definition json_text :: "jsstring \<Rightarrow> bool" where
  "json_text s = (\<exists>ts. json_lexes s ts \<and> json_value ts)"

text \<open>
  The octets that a sequence of sextets spells (RFC 4648): four sextets are the bits of
  three octets; at the end, two sextets give one octet and three give two, and the bits
  left over in the last sextet are not looked at.
\<close>

fun sextets_spell :: "nat list \<Rightarrow> nat list \<Rightarrow> bool" where
  "sextets_spell (a # b # c # d # ss) (x # y # z # bs) =
     (a = x div 4 \<and> b = (x mod 4) * 16 + y div 16 \<and> c = (y mod 16) * 4 + z div 64 \<and> d = z mod 64
      \<and> sextets_spell ss bs)"
| "sextets_spell [a, b, c] [x, y] =
     (a = x div 4 \<and> b = (x mod 4) * 16 + y div 16 \<and> c div 4 = y mod 16)"
| "sextets_spell [a, b] [x] = (a = x div 4 \<and> b div 16 = x mod 4)"
| "sextets_spell [] [] = True"
| "sextets_spell _ _ = False"

text \<open>
  A token spells the octets in forgiving base64: with the ASCII white space taken out, it
  is the characters of sextets that spell the octets, followed by no padding, or by the
  \<open>=\<close> signs that fill the last group of four.
\<close>

definition base64_spelling :: "nat list \<Rightarrow> jsstring \<Rightarrow> bool" where
  "base64_spelling octets token =
     (\<exists>ss pad.
        filter (\<lambda>c. c \<notin> set [9, 10, 12, 13, 32]) token = map base64_char ss @ pad
        \<and> list_all (\<lambda>s. s < 64) ss
        \<and> sextets_spell ss octets
        \<and> (pad = [] \<or> pad = [61] \<and> length ss mod 4 = 3 \<or> pad = [61, 61] \<and> length ss mod 4 = 2))"

text \<open>
  A validly formed token: it spells, in base64, the UTF-8 octets of a JSON text.
\<close>

definition validly_formed :: "jsstring \<Rightarrow> bool" where
  "validly_formed token =
     (\<exists>payload. js_string payload \<and> well_formed_utf16 payload \<and> json_text payload
        \<and> base64_spelling (utf8_string payload) token)"

subsection \<open>What atob accepts is base64\<close>

lemma strip_padding_pad:
  "\<exists>pad. f = strip_padding f @ pad
     \<and> (pad = [] \<or> pad = [61] \<and> length (strip_padding f) mod 4 = 3
         \<or> pad = [61, 61] \<and> length (strip_padding f) mod 4 = 2)"
proof (cases "length f mod 4 = 0 \<and> f \<noteq> [] \<and> last f = 61")
  case False
  then have "strip_padding f = f" by (auto simp: strip_padding_def)
  then show ?thesis by simp
next
  case True
  then obtain g where f: "f = g @ [61]"
    by (cases f rule: rev_cases) auto
  with True have "(length g + 1) mod 4 = 0" by simp
  then have g3: "length g mod 4 = 3" by presburger
  show ?thesis
  proof (cases "g \<noteq> [] \<and> last g = 61")
    case False
    with True f have "strip_padding f = g" by (auto simp: strip_padding_def)
    with f g3 show ?thesis by simp
  next
    case t: True
    then obtain h where g: "g = h @ [61]"
      by (cases g rule: rev_cases) auto
    with g3 have "(length h + 1) mod 4 = 3" by simp
    then have h2: "length h mod 4 = 2" by presburger
    from True f g have "strip_padding f = h" by (simp add: strip_padding_def butlast_append)
    with f g h2 show ?thesis by simp
  qed
qed

lemma base64_char_value:
  assumes "is_base64_char c"
  shows "base64_char (base64_value c) = c \<and> base64_value c < 64"
proof -
  from assms consider "65 \<le> c \<and> c \<le> 90" | "97 \<le> c \<and> c \<le> 122" | "48 \<le> c \<and> c \<le> 57"
    | "c = 43" | "c = 47"
    unfolding is_base64_char_def is_alpha_num_def by blast
  then show ?thesis
  proof cases
    case 1
    then have v: "base64_value c = c - 65" by (simp add: base64_value_def)
    from 1 have i: "c - 65 < 26" "65 + (c - 65) = c" by arith+
    then have "base64_char (c - 65) = 65 + (c - 65)" by (simp add: base64_char_def)
    with v i show ?thesis by simp
  next
    case 2
    then have v: "base64_value c = c - 71" by (simp add: base64_value_def)
    from 2 have i: "26 \<le> c - 71" "c - 71 < 52" "71 + (c - 71) = c" by arith+
    then have "base64_char (c - 71) = 71 + (c - 71)" by (simp add: base64_char_def)
    with v i show ?thesis by simp
  next
    case 3
    then have v: "base64_value c = c + 4" by (simp add: base64_value_def)
    from 3 have i: "52 \<le> c + 4" "c + 4 < 62" "c + 4 - 4 = c" by arith+
    then have "base64_char (c + 4) = c + 4 - 4" by (simp add: base64_char_def)
    with v i show ?thesis by simp
  next
    case 4
    then show ?thesis by (simp add: base64_value_def base64_char_def)
  next
    case 5
    then show ?thesis by (simp add: base64_value_def base64_char_def)
  qed
qed

lemma base64_chars_values:
  "list_all is_base64_char d \<Longrightarrow>
     map base64_char (map base64_value d) = d \<and> list_all (\<lambda>s. s < 64) (map base64_value d)"
  by (induction d) (simp_all add: base64_char_value)

lemma sextets_to_octets_spell:
  "list_all (\<lambda>s. s < 64) ss \<Longrightarrow> length ss mod 4 \<noteq> 1 \<Longrightarrow> sextets_spell ss (sextets_to_octets ss)"
proof (induction ss rule: sextets_to_octets.induct)
  case (1 a b c d r)
  then have r: "sextets_spell r (sextets_to_octets r)" by simp
  from "1.prems" have lt: "a < 64" "b < 64" "c < 64" "d < 64" by simp_all
  have "(a * 4 + b div 16) div 4 = a" "(a * 4 + b div 16) mod 4 = b div 16"
    "((b mod 16) * 16 + c div 4) div 16 = b mod 16" "((b mod 16) * 16 + c div 4) mod 16 = c div 4"
    "((c mod 4) * 64 + d) div 64 = c mod 4" "((c mod 4) * 64 + d) mod 64 = d"
    using lt by simp_all
  with r show ?case by simp
next
  case (2 a b c)
  then have lt: "a < 64" "b < 64" "c < 64" by simp_all
  have "(a * 4 + b div 16) div 4 = a" "(a * 4 + b div 16) mod 4 = b div 16"
    "((b mod 16) * 16 + c div 4) div 16 = b mod 16" "((b mod 16) * 16 + c div 4) mod 16 = c div 4"
    using lt by simp_all
  then show ?case by simp
next
  case (3 a b)
  then have lt: "a < 64" "b < 64" by simp_all
  have "(a * 4 + b div 16) div 4 = a" "(a * 4 + b div 16) mod 4 = b div 16"
    using lt by simp_all
  then show ?case by simp
qed simp_all

lemma atob_base64_spelling:
  assumes "atob token = Inr octets"
  shows "base64_spelling octets token"
proof -
  define f where "f = filter (\<lambda>c. \<not> is_ascii_whitespace c) token"
  define d where "d = strip_padding f"
  from assms have l: "length d mod 4 \<noteq> 1" and a: "list_all is_base64_char d"
    and o: "octets = sextets_to_octets (map base64_value d)"
    by (auto simp: atob_def Let_def d_def f_def split: if_splits)
  from strip_padding_pad [of f] obtain pad where pad: "f = d @ pad"
    "pad = [] \<or> pad = [61] \<and> length d mod 4 = 3 \<or> pad = [61, 61] \<and> length d mod 4 = 2"
    unfolding d_def by blast
  define ss where "ss = map base64_value d"
  from base64_chars_values [OF a] have ss: "map base64_char ss = d" "list_all (\<lambda>s. s < 64) ss"
    by (simp_all add: ss_def)
  have len: "length ss = length d" by (simp add: ss_def)
  from sextets_to_octets_spell [OF ss(2)] l have sp: "sextets_spell ss octets"
    by (simp add: o ss_def)
  have "filter (\<lambda>c. c \<notin> set [9, 10, 12, 13, 32]) token = map base64_char ss @ pad"
    using pad(1) ss(1) by (simp add: f_def is_ascii_whitespace_def)
  with ss(2) sp pad(2) show ?thesis
    unfolding base64_spelling_def len [symmetric] by blast
qed

lemma base64_spelling_chars:
  assumes "base64_spelling octets token" "c \<in> set token"
  shows "c \<in> set [9, 10, 12, 13, 32] \<or> c = 61 \<or> is_base64_char c"
proof (cases "c \<in> set [9, 10, 12, 13, 32]")
  case True
  then show ?thesis by simp
next
  case False
  from assms(1) obtain ss pad where
    f: "filter (\<lambda>c. c \<notin> set [9, 10, 12, 13, 32]) token = map base64_char ss @ pad"
    and pad: "pad = [] \<or> pad = [61] \<or> pad = [61, 61]"
    unfolding base64_spelling_def by blast
  from False assms(2) have "c \<in> set (filter (\<lambda>c. c \<notin> set [9, 10, 12, 13, 32]) token)"
    by simp
  then have "c \<in> set (map base64_char ss) \<or> c \<in> set pad"
    unfolding f by simp
  then show ?thesis
  proof
    assume "c \<in> set (map base64_char ss)"
    then obtain i where "c = base64_char i" by auto
    then have "is_base64_char c"
      unfolding base64_char_def is_base64_char_def is_alpha_num_def
      by (simp split: if_splits) arith
    then show ?thesis by simp
  next
    assume "c \<in> set pad"
    with pad show ?thesis by auto
  qed
qed

lemma sextets_to_octets_bytes:
  "list_all (\<lambda>s. s < 64) ss \<Longrightarrow> list_all (\<lambda>b. b < 256) (sextets_to_octets ss)"
proof (induction ss rule: sextets_to_octets.induct)
  case (1 a b c d r)
  then have lt: "a < 64" "b < 64" "c < 64" "d < 64"
    and r: "list_all (\<lambda>b. b < 256) (sextets_to_octets r)"
    by simp_all
  have "b div 16 < 4" "c div 4 < 16" "b mod 16 < 16" "c mod 4 < 4"
    using lt by simp_all
  with lt have "a * 4 + b div 16 < 256" "b mod 16 * 16 + c div 4 < 256" "c mod 4 * 64 + d < 256"
    by linarith+
  with r show ?case by simp
next
  case (2 a b c)
  then have lt: "a < 64" "b < 64" "c < 64" by simp_all
  have "b div 16 < 4" "c div 4 < 16" "b mod 16 < 16"
    using lt by simp_all
  with lt have "a * 4 + b div 16 < 256" "b mod 16 * 16 + c div 4 < 256"
    by linarith+
  then show ?case by simp
next
  case (3 a b)
  then have lt: "a < 64" "b < 64" by simp_all
  have "b div 16 < 4" using lt by simp
  with lt have "a * 4 + b div 16 < 256" by linarith
  then show ?case by simp
qed simp_all

lemma atob_bytes:
  assumes "atob token = Inr octets"
  shows "list_all (\<lambda>b. b < 256) octets"
proof -
  define d where "d = strip_padding (filter (\<lambda>c. \<not> is_ascii_whitespace c) token)"
  from assms have a: "list_all is_base64_char d"
    and o: "octets = sextets_to_octets (map base64_value d)"
    by (auto simp: atob_def Let_def d_def split: if_splits)
  from base64_chars_values [OF a] have "list_all (\<lambda>s. s < 64) (map base64_value d)"
    by simp
  from sextets_to_octets_bytes [OF this] show ?thesis
    by (simp add: o)
qed

subsection \<open>What decodeURIComponent accepts after escape is UTF-8\<close>

lemma continuation_octets_length:
  "continuation_octets n s = Some conts \<Longrightarrow> length conts = n"
proof (induction n arbitrary: s conts)
  case 0
  then show ?case by simp
next
  case (Suc n)
  from Suc.prems obtain p a b r conts' where "s = p # a # b # r"
    "continuation_octets n r = Some conts'" "conts = hex_value [a, b] # conts'"
    by (auto split: list.splits if_splits)
  with Suc.IH [of r conts'] show ?case by simp
qed

lemma escape_unit_cases:
  assumes "b < 256"
  obtains "escape_unescaped b" "escape_unit b = [b]" "b < 128" "b \<noteq> 37"
  | "\<not> escape_unescaped b" "escape_unit b = percent_octet b"
  using assms escape_unescaped_ascii [of b] by (cases "escape_unescaped b") (auto simp: escape_unit_def)

lemma drop_3_plus: "drop (3 + n) (a # b # c # r) = drop n r"
  by (simp add: numeral_3_eq_3)

lemma continuation_octets_escape:
  "continuation_octets k (escape bs) = Some conts \<Longrightarrow> list_all (\<lambda>b. b < 256) bs \<Longrightarrow>
     k \<le> length bs \<and> conts = take k bs \<and> drop (3 * k) (escape bs) = escape (drop k bs)"
proof (induction k arbitrary: bs conts)
  case 0
  then show ?case by simp
next
  case (Suc k)
  show ?case
  proof (cases bs)
    case Nil
    with Suc.prems(1) show ?thesis by (simp add: escape_def)
  next
    case (Cons x xs)
    with Suc.prems(2) have x: "x < 256" and xs: "list_all (\<lambda>b. b < 256) xs" by simp_all
    from x show ?thesis
    proof (cases rule: escape_unit_cases)
      case 1
      with Suc.prems(1) show ?thesis
        by (auto simp: Cons escape_Cons split: list.splits if_splits)
    next
      case 2
      have d: "x div 16 < 16" "x mod 16 < 16" using x by simp_all
      from Suc.prems(1) obtain conts' where c: "continuation_octets k (escape xs) = Some conts'"
        "conts = x # conts'"
        using hex_value_upper_pair [OF x]
        by (auto simp: Cons escape_Cons 2(2) percent_octet_def split: if_splits)
      from Suc.IH [OF c(1) xs] c(2) show ?thesis
        by (simp add: Cons escape_Cons 2(2) percent_octet_def drop_3_plus)
    qed
  qed
qed

lemma decodeURIComponent_percent_high:
  assumes b: "b < 256" "128 \<le> b" and s: "decodeURIComponent (percent_octet b @ r) = Inr s"
  obtains conts v s' where "leading_ones b = Suc (length conts)" "length conts \<in> {1, 2, 3}"
    "continuation_octets (length conts) r = Some conts" "utf8_code_point (b # conts) = Some v"
    "decodeURIComponent (drop (3 * length conts) r) = Inr s'" "s = utf16_encode_code_point v @ s'"
proof -
  have d: "b div 16 < 16" "b mod 16 < 16" using b by simp_all
  define n where "n = leading_ones b"
  have n0: "n \<noteq> 0" using b(2) by (simp add: n_def leading_ones_def)
  have eq: "decodeURIComponent (percent_octet b @ r) =
      (if n = 1 \<or> n > 4 then Inl URIError
       else if length r < 3 * (n - 1) then Inl URIError
       else (case continuation_octets (n - 1) r of
               None \<Rightarrow> Inl URIError
             | Some conts \<Rightarrow>
                 (case utf8_code_point (b # conts) of
                    None \<Rightarrow> Inl URIError
                  | Some v \<Rightarrow> map_sum id ((@) (utf16_encode_code_point v))
                      (decodeURIComponent (drop (3 * (n - 1)) r)))))"
    using n0 hex_digit_upper_is_hex [OF d(1)] hex_digit_upper_is_hex [OF d(2)]
      hex_value_upper_pair [OF b(1)]
    by (simp add: percent_octet_def Let_def n_def cong: option.case_cong)
  from s [unfolded eq] obtain conts v s' where n: "n \<noteq> 1" "n \<le> 4"
    and c: "continuation_octets (n - 1) r = Some conts" "utf8_code_point (b # conts) = Some v"
      "decodeURIComponent (drop (3 * (n - 1)) r) = Inr s'" "s = utf16_encode_code_point v @ s'"
    by (auto split: if_splits option.splits sum.splits simp: map_sum_def)
  from continuation_octets_length [OF c(1)] have l: "length conts = n - 1" .
  with n n0 have lo: "leading_ones b = Suc (length conts)" "length conts \<in> {1, 2, 3}"
    by (auto simp: n_def)
  from c(1,3) have c': "continuation_octets (length conts) r = Some conts"
    "decodeURIComponent (drop (3 * length conts) r) = Inr s'"
    unfolding l by simp_all
  from lo c'(1) c(2) c'(2) c(4) show thesis by (rule that)
qed

lemma div_mod_64:
  fixes q z :: nat
  assumes "z < 64"
  shows "(q * 64 + z) div 64 = q" "(q * 64 + z) mod 64 = z"
  using assms by simp_all

text \<open>A sequence that \<open>Decode\<close> accepts is the UTF-8 form of the code point it gives.\<close>

lemma utf8_code_point_octets:
  assumes v: "utf8_code_point (b # conts) = Some v"
    and n: "leading_ones b = Suc (length conts)" "length conts \<in> {1, 2, 3}"
  shows "utf8_octets v = b # conts \<and> v \<le> 1114111 \<and> \<not> (55296 \<le> v \<and> v \<le> 57343) \<and> 128 \<le> v"
proof -
  from n(2) consider "length conts = 1" | "length conts = 2" | "length conts = 3" by auto
  then show ?thesis
  proof cases
    case 1
    then obtain c where conts: "conts = [c]" by (cases conts) auto
    from n(1) 1 have b: "192 \<le> b" "b < 224"
      by (auto simp: leading_ones_def split: if_splits)
    from v conts have c: "128 \<le> c" "c < 192" and cp: "v = (b - 192) * 64 + (c - 128)"
      and lo: "128 \<le> v" and hi: "v \<le> 1114111" and ns: "\<not> (55296 \<le> v \<and> v \<le> 57343)"
      by (auto simp: utf8_code_point_def Let_def split: if_splits)
    define x y where "x = b - 192" and "y = c - 128"
    have xy: "x < 32" "y < 64" "b = 192 + x" "c = 128 + y"
      using b c by (simp_all add: x_def y_def)
    have v': "v = x * 64 + y" using cp by (simp add: x_def y_def)
    have "v div 64 = x" "v mod 64 = y"
      unfolding v' by (rule div_mod_64 [OF xy(2)])+
    moreover have "v < 2048" using xy(1,2) unfolding v' by simp
    ultimately have "v < 2048" "v div 64 = x" "v mod 64 = y" by simp_all
    with lo have "utf8_octets v = [192 + x, 128 + y]"
      by (simp add: utf8_octets_def)
    with xy conts lo hi ns show ?thesis by simp
  next
    case 2
    then have "length conts = Suc (Suc 0)" by simp
    then obtain c1 c2 where conts: "conts = [c1, c2]"
      by (auto simp: length_Suc_conv)
    from n(1) 2 have b: "224 \<le> b" "b < 240"
      by (auto simp: leading_ones_def split: if_splits)
    from v conts have c: "128 \<le> c1" "c1 < 192" "128 \<le> c2" "c2 < 192"
      and cp: "v = ((b - 224) * 64 + (c1 - 128)) * 64 + (c2 - 128)"
      and lo: "2048 \<le> v" and hi: "v \<le> 1114111" and ns: "\<not> (55296 \<le> v \<and> v \<le> 57343)"
      by (auto simp: utf8_code_point_def Let_def split: if_splits)
    define x y z where "x = b - 224" and "y = c1 - 128" and "z = c2 - 128"
    have xy: "x < 16" "y < 64" "z < 64" "b = 224 + x" "c1 = 128 + y" "c2 = 128 + z"
      using b c by (simp_all add: x_def y_def z_def)
    have v': "v = (x * 64 + y) * 64 + z" using cp by (simp add: x_def y_def z_def)
    have d64: "v div 64 = x * 64 + y" "v mod 64 = z"
      unfolding v' by (rule div_mod_64 [OF xy(3)])+
    have "v div 4096 = (v div 64) div 64" by (simp add: div_mult2_eq)
    then have d4096: "v div 4096 = x"
      unfolding d64(1) by (simp only: div_mod_64(1) [OF xy(2)])
    have m: "(v div 64) mod 64 = y"
      unfolding d64(1) by (rule div_mod_64(2) [OF xy(2)])
    have "v < 65536" using xy(1,2,3) unfolding v' by simp
    with lo d4096 m d64 have "utf8_octets v = [224 + x, 128 + y, 128 + z]"
      by (simp add: utf8_octets_def)
    with xy conts lo hi ns show ?thesis by simp
  next
    case 3
    then have "length conts = Suc (Suc (Suc 0))" by simp
    then obtain c1 c2 c3 where conts: "conts = [c1, c2, c3]"
      by (auto simp: length_Suc_conv)
    from n(1) 3 have b: "240 \<le> b" "b < 248"
      by (auto simp: leading_ones_def split: if_splits)
    from v conts have c: "128 \<le> c1" "c1 < 192" "128 \<le> c2" "c2 < 192" "128 \<le> c3" "c3 < 192"
      and cp: "v = (((b - 240) * 64 + (c1 - 128)) * 64 + (c2 - 128)) * 64 + (c3 - 128)"
      and lo: "65536 \<le> v" and hi: "v \<le> 1114111" and ns: "\<not> (55296 \<le> v \<and> v \<le> 57343)"
      by (auto simp: utf8_code_point_def Let_def split: if_splits)
    define x y z w where "x = b - 240" and "y = c1 - 128" and "z = c2 - 128" and "w = c3 - 128"
    have xy: "x < 8" "y < 64" "z < 64" "w < 64" "b = 240 + x" "c1 = 128 + y" "c2 = 128 + z"
      "c3 = 128 + w"
      using b c by (simp_all add: x_def y_def z_def w_def)
    have v': "v = ((x * 64 + y) * 64 + z) * 64 + w"
      using cp by (simp add: x_def y_def z_def w_def)
    have d64: "v div 64 = (x * 64 + y) * 64 + z" "v mod 64 = w"
      unfolding v' by (rule div_mod_64 [OF xy(4)])+
    have "v div 4096 = (v div 64) div 64" by (simp add: div_mult2_eq)
    then have d4096: "v div 4096 = x * 64 + y"
      unfolding d64(1) by (simp only: div_mod_64(1) [OF xy(3)])
    have "v div 262144 = (v div 4096) div 64" by (simp add: div_mult2_eq)
    then have d262144: "v div 262144 = x"
      unfolding d4096 by (simp only: div_mod_64(1) [OF xy(2)])
    have m1: "(v div 64) mod 64 = z"
      unfolding d64(1) by (rule div_mod_64(2) [OF xy(3)])
    have m2: "(v div 4096) mod 64 = y"
      unfolding d4096 by (rule div_mod_64(2) [OF xy(2)])
    from lo d262144 d4096 m1 m2 d64 have "utf8_octets v = [240 + x, 128 + y, 128 + z, 128 + w]"
      by (simp add: utf8_octets_def)
    with xy conts lo hi ns show ?thesis by simp
  qed
qed

lemma utf16_encode_code_point_scalar:
  assumes "v \<le> 1114111" "\<not> (55296 \<le> v \<and> v \<le> 57343)"
  shows "js_string (utf16_encode_code_point v)
    \<and> well_formed_utf16 (utf16_encode_code_point v @ t) = well_formed_utf16 t
    \<and> utf8_string (utf16_encode_code_point v @ t) = utf8_octets v @ utf8_string t"
proof (cases "v \<le> 65535")
  case True
  with assms(2) show ?thesis
    by (auto simp: utf16_encode_code_point_def is_high_surrogate_def is_low_surrogate_def
        js_string_def)
next
  case False
  define x where "x = v - 65536"
  have x: "x < 1048576" "v = x + 65536" using False assms(1) by (simp_all add: x_def)
  define hi lo where "hi = x div 1024 + 55296" and "lo = x mod 1024 + 56320"
  have d: "x div 1024 < 1024" using x(1) by simp
  have m: "x mod 1024 < 1024" by simp
  from d have h: "is_high_surrogate hi" by (simp add: hi_def is_high_surrogate_def)
  from m have l: "is_low_surrogate lo" by (simp add: lo_def is_low_surrogate_def)
  have e: "utf16_encode_code_point v = [hi, lo]"
    using False by (simp add: utf16_encode_code_point_def hi_def lo_def x_def)
  have p: "surrogate_pair_to_code_point hi lo = v"
    by (simp add: surrogate_pair_to_code_point_def hi_def lo_def x(2))
  have "hi < 65536" "lo < 65536"
    using h l by (simp_all add: is_high_surrogate_def is_low_surrogate_def)
  then have "js_string [hi, lo]" by (simp add: js_string_def)
  with h l p show ?thesis by (simp add: e)
qed

lemma decodeURIComponent_escape_utf8:
  "list_all (\<lambda>b. b < 256) bs \<Longrightarrow> decodeURIComponent (escape bs) = Inr s \<Longrightarrow>
     js_string s \<and> well_formed_utf16 s \<and> utf8_string s = bs"
proof (induction "length bs" arbitrary: bs s rule: less_induct)
  case less
  show ?case
  proof (cases bs)
    case Nil
    with less.prems(2) show ?thesis by (simp add: escape_def js_string_def)
  next
    case (Cons b bs')
    with less.prems(1) have b: "b < 256" and bs': "list_all (\<lambda>b. b < 256) bs'" by simp_all
    have ascii: ?thesis
      if "b < 128" "decodeURIComponent (escape bs) = map_sum id ((#) b) (decodeURIComponent (escape bs'))"
    proof -
      from less.prems(2) that(2) obtain s' where s': "decodeURIComponent (escape bs') = Inr s'"
        "s = b # s'"
        by (cases "decodeURIComponent (escape bs')") auto
      from less.hyps [OF _ bs' s'(1)] have "js_string s' \<and> well_formed_utf16 s' \<and> utf8_string s' = bs'"
        by (simp add: Cons)
      with that(1) show ?thesis
        by (simp add: s'(2) Cons js_string_def is_high_surrogate_def is_low_surrogate_def
            utf8_octets_def)
    qed
    from b show ?thesis
    proof (cases rule: escape_unit_cases)
      case 1
      then have "decodeURIComponent (escape bs) = map_sum id ((#) b) (decodeURIComponent (escape bs'))"
        by (simp add: Cons escape_Cons)
      with 1(3) show ?thesis by (rule ascii)
    next
      case 2
      show ?thesis
      proof (cases "b < 128")
        case True
        from decodeURIComponent_percent_ascii [OF True, of "escape bs'"] 2(2)
        have "decodeURIComponent (escape bs) = map_sum id ((#) b) (decodeURIComponent (escape bs'))"
          by (simp add: Cons escape_Cons)
        with True show ?thesis by (rule ascii)
      next
        case False
        then have hi: "128 \<le> b" by simp
        from less.prems(2) have "decodeURIComponent (percent_octet b @ escape bs') = Inr s"
          by (simp add: Cons escape_Cons 2(2))
        from b hi this obtain conts v s' where n: "leading_ones b = Suc (length conts)"
          "length conts \<in> {1, 2, 3}"
          and c: "continuation_octets (length conts) (escape bs') = Some conts"
          and v: "utf8_code_point (b # conts) = Some v"
          and s': "decodeURIComponent (drop (3 * length conts) (escape bs')) = Inr s'"
          and s: "s = utf16_encode_code_point v @ s'"
          by (rule decodeURIComponent_percent_high)
        from continuation_octets_escape [OF c bs']
        have k: "length conts \<le> length bs'" "conts = take (length conts) bs'"
          "drop (3 * length conts) (escape bs') = escape (drop (length conts) bs')"
          by simp_all
        have "list_all (\<lambda>b. b < 256) (drop (length conts) bs')"
          using bs' by (simp add: list_all_iff) (meson in_set_dropD)
        from less.hyps [OF _ this s' [unfolded k(3)]]
        have ih: "js_string s'" "well_formed_utf16 s'" "utf8_string s' = drop (length conts) bs'"
          by (simp_all add: Cons)
        from utf8_code_point_octets [OF v n]
        have o: "utf8_octets v = b # conts" "v \<le> 1114111" "\<not> (55296 \<le> v \<and> v \<le> 57343)"
          by simp_all
        from utf16_encode_code_point_scalar [OF o(2,3), of s']
        have u: "js_string (utf16_encode_code_point v)"
          "well_formed_utf16 (utf16_encode_code_point v @ s') = well_formed_utf16 s'"
          "utf8_string (utf16_encode_code_point v @ s') = utf8_octets v @ utf8_string s'"
          by simp_all
        have "utf8_string s = (b # conts) @ drop (length conts) bs'"
          by (simp add: s u(3) o(1) ih(3))
        also have "\<dots> = b # bs'"
          using k(2) by (metis append_Cons append_take_drop_id)
        finally have "utf8_string s = bs" by (simp add: Cons)
        moreover have "js_string s"
          using u(1) ih(1) by (simp add: s js_string_def)
        moreover have "well_formed_utf16 s"
          using ih(2) by (simp add: s u(2))
        ultimately show ?thesis by simp
      qed
    qed
  qed
qed

subsection \<open>What JSON.parse accepts is JSON\<close>

lemma json_string_chars_body:
  "json_string_chars s = Some (v, r) \<Longrightarrow> \<exists>b. s = b @ 34 # r \<and> string_body b"
proof (induction s arbitrary: v r rule: json_string_chars.induct)
  case 1
  then show ?case by simp
next
  case (2 c cs)
  show ?case
  proof (cases "c = 34")
    case True
    with "2.prems" have "r = cs" by simp
    with True have "c # cs = [] @ 34 # r" by simp
    with body_end show ?thesis by blast
  next
    case c34: False
    show ?thesis
    proof (cases "c = 92")
      case False
      with c34 "2.prems" obtain v' where c32: "32 \<le> c" and r: "json_string_chars cs = Some (v', r)"
        by (auto split: if_splits)
      from "2.IH"(3) [OF c34 False _ r] c32 obtain b where b: "cs = b @ 34 # r" "string_body b"
        by auto
      from body_char [OF c32 c34 False b(2)] b(1) have "c # cs = (c # b) @ 34 # r \<and> string_body (c # b)"
        by simp
      then show ?thesis by blast
    next
      case True
      then obtain e es where cs: "cs = e # es"
        using "2.prems" by (cases cs) auto
      show ?thesis
      proof (cases "e = 117")
        case e: True
        with True c34 cs "2.prems" obtain v' where
          hex: "4 \<le> length es" "list_all is_hex_digit (take 4 es)"
          and r: "json_string_chars (drop 4 es) = Some (v', r)"
          by (auto split: if_splits)
        from "2.IH"(1) [OF c34 True cs e _ r] hex
        obtain b where b: "drop 4 es = b @ 34 # r" "string_body b" by auto
        define t where "t = take 4 es"
        have "length t = Suc (Suc (Suc (Suc 0)))" using hex(1) by (simp add: t_def)
        then obtain h1 h2 h3 h4 where t: "t = [h1, h2, h3, h4]"
          by (auto simp: length_Suc_conv)
        have "es = t @ drop 4 es" by (simp add: t_def)
        with t b(1) have es: "es = h1 # h2 # h3 # h4 # b @ 34 # r" by simp
        from hex(2) t have "list_all is_hex_digit [h1, h2, h3, h4]" by (simp add: t_def)
        then have "is_hex_digit h1" "is_hex_digit h2" "is_hex_digit h3" "is_hex_digit h4"
          by simp_all
        from body_unicode [OF this b(2)] es cs True e
        have "c # cs = (92 # 117 # h1 # h2 # h3 # h4 # b) @ 34 # r
            \<and> string_body (92 # 117 # h1 # h2 # h3 # h4 # b)"
          by simp
        then show ?thesis by blast
      next
        case e: False
        with True c34 cs "2.prems" obtain x v' where
          x: "json_escape e = Some x" and r: "json_string_chars es = Some (v', r)"
          by (auto split: if_splits option.splits)
        from "2.IH"(2) [OF c34 True cs e x r]
        obtain b where b: "es = b @ 34 # r" "string_body b" by auto
        from x have "e \<in> set [34, 92, 47, 98, 102, 110, 114, 116]"
          by (simp add: json_escape_def split: if_splits)
        from body_escape [OF this b(2)] b(1) cs True
        have "c # cs = (92 # e # b) @ 34 # r \<and> string_body (92 # e # b)"
          by simp
        then show ?thesis by blast
      qed
    qed
  qed
qed


lemma json_number_literal:
  assumes a: "json_number s = Some (v, r)"
  shows "\<exists>l. s = l @ r \<and> number_literal l"
proof -
  define neg where "neg = (s \<noteq> [] \<and> hd s = 45)"
  define s1 where "s1 = (if neg then tl s else s)"
  define ip where "ip = takeWhile is_digit s1"
  define s2 where "s2 = dropWhile is_digit s1"
  define has_frac where "has_frac = (s2 \<noteq> [] \<and> hd s2 = 46)"
  define fp where "fp = (if has_frac then takeWhile is_digit (tl s2) else [])"
  define s3 where "s3 = (if has_frac then dropWhile is_digit (tl s2) else s2)"
  define has_exp where "has_exp = (s3 \<noteq> [] \<and> (hd s3 = 101 \<or> hd s3 = 69))"
  define s4 where "s4 = (if has_exp then tl s3 else s3)"
  define has_sign where "has_sign = (has_exp \<and> s4 \<noteq> [] \<and> (hd s4 = 45 \<or> hd s4 = 43))"
  define s5 where "s5 = (if has_sign then tl s4 else s4)"
  define ep where "ep = (if has_exp then takeWhile is_digit s5 else [])"
  define s6 where "s6 = (if has_exp then dropWhile is_digit s5 else s3)"
  have "\<exists>x. json_number s =
      (if ip = [] \<or> (hd ip = 48 \<and> 1 < length ip) then None
       else if has_frac \<and> fp = [] then None
       else if has_exp \<and> ep = [] then None
       else Some (x, s6))"
    unfolding json_number_def Let_def s6_def ep_def s5_def has_sign_def s4_def has_exp_def
      s3_def fp_def has_frac_def s2_def ip_def s1_def neg_def
    by blast
  then obtain x where "json_number s =
      (if ip = [] \<or> (hd ip = 48 \<and> 1 < length ip) then None
       else if has_frac \<and> fp = [] then None
       else if has_exp \<and> ep = [] then None
       else Some (x, s6))" ..
  with a have r: "r = s6" and ip: "ip \<noteq> []" and zero: "hd ip = 48 \<longrightarrow> \<not> 1 < length ip"
    and frac: "has_frac \<longrightarrow> fp \<noteq> []" and ex: "has_exp \<longrightarrow> ep \<noteq> []"
    by (simp_all split: if_splits)
  define minus where "minus = (if neg then [45::nat] else [])"
  define frac_part where "frac_part = (if has_frac then 46 # fp else [])"
  define sign where "sign = (if has_sign then [hd s4] else [])"
  define exp_part where "exp_part = (if has_exp then hd s3 # sign @ ep else [])"
  have td: "takeWhile P xs @ dropWhile P xs = xs" for P and xs :: "nat list"
    by simp
  have all_digits: "list_all is_digit (takeWhile is_digit xs)" for xs
    by (simp add: list_all_iff) (meson set_takeWhileD)
  have e1: "s = minus @ s1"
    unfolding minus_def s1_def neg_def by (cases s) auto
  have e2: "s1 = ip @ s2"
    unfolding ip_def s2_def by simp
  have e3: "s2 = frac_part @ s3"
    unfolding frac_part_def s3_def fp_def has_frac_def by (cases s2) auto
  have e5: "s4 = sign @ s5"
    unfolding sign_def s5_def has_sign_def by (cases s4) auto
  have e4: "s3 = exp_part @ s6"
  proof (cases has_exp)
    case True
    then have "s3 = hd s3 # s4" unfolding s4_def has_exp_def by (cases s3) auto
    moreover have "s5 = ep @ s6" using True unfolding ep_def s6_def by simp
    ultimately show ?thesis using True e5 by (simp add: exp_part_def)
  next
    case False
    then show ?thesis by (simp add: exp_part_def s6_def)
  qed
  have l: "s = (minus @ ip @ frac_part @ exp_part) @ r"
    using e1 e2 e3 e4 r by simp
  have d1: "digits ip"
    using ip all_digits [of s1] by (simp add: digits_def ip_def)
  have z: "hd ip = 48 \<longrightarrow> ip = [48]"
    using zero ip by (cases ip) (auto simp: not_less)
  have d2: "frac_part = [] \<or> (\<exists>ds. frac_part = 46 # ds \<and> digits ds)"
  proof (cases has_frac)
    case True
    with frac have "fp \<noteq> []" by simp
    moreover have "list_all is_digit fp"
      using True all_digits [of "tl s2"] by (simp add: fp_def)
    ultimately show ?thesis using True by (simp add: frac_part_def digits_def)
  next
    case False
    then show ?thesis by (simp add: frac_part_def)
  qed
  have d3: "exp_part = [] \<or> (\<exists>e sg ds. exp_part = e # sg @ ds \<and> (e = 101 \<or> e = 69)
      \<and> (sg = [] \<or> sg = [43] \<or> sg = [45]) \<and> digits ds)"
  proof (cases has_exp)
    case True
    with ex have "ep \<noteq> []" by simp
    moreover have "list_all is_digit ep"
      using True all_digits [of s5] by (simp add: ep_def)
    ultimately have "digits ep" by (simp add: digits_def)
    moreover have "hd s3 = 101 \<or> hd s3 = 69"
      using True by (simp add: has_exp_def)
    moreover have "sign = [] \<or> sign = [43] \<or> sign = [45]"
      by (auto simp: sign_def has_sign_def)
    moreover have "exp_part = hd s3 # sign @ ep"
      using True by (simp add: exp_part_def)
    ultimately show ?thesis by blast
  next
    case False
    then show ?thesis by (simp add: exp_part_def)
  qed
  have m: "minus = [] \<or> minus = [45]"
    by (simp add: minus_def)
  have "number_literal (minus @ ip @ frac_part @ exp_part)"
    unfolding number_literal_def using m d1 z d2 d3 by blast
  with l show ?thesis by blast
qed

text \<open>The tokeniser, branch by branch.\<close>

lemma tokenise_punctuation:
  "tokenise (123 # cs) = map_option ((#) TLBrace) (tokenise cs)"
  "tokenise (125 # cs) = map_option ((#) TRBrace) (tokenise cs)"
  "tokenise (91 # cs) = map_option ((#) TLBracket) (tokenise cs)"
  "tokenise (93 # cs) = map_option ((#) TRBracket) (tokenise cs)"
  "tokenise (58 # cs) = map_option ((#) TColon) (tokenise cs)"
  "tokenise (44 # cs) = map_option ((#) TComma) (tokenise cs)"
  by (simp_all add: is_json_whitespace_def)

lemma tokenise_cases:
  assumes "tokenise (c # cs) = Some ts"
  obtains
    (space) "c \<in> set [9, 10, 13, 32]" "tokenise cs = Some ts"
  | (punctuation) t ts' where "json_lexeme [c] t" "tokenise cs = Some ts'" "ts = t # ts'"
  | (string) v r ts' where "c = 34" "json_string_chars cs = Some (v, r)"
      "tokenise r = Some ts'" "ts = TString v # ts'"
  | (literal) l t n ts' where "json_lexeme l t" "c # cs = l @ drop n cs"
      "tokenise (drop n cs) = Some ts'" "ts = t # ts'"
  | (number) v r ts' where "json_number (c # cs) = Some (v, r)"
      "tokenise r = Some ts'" "ts = TNumber v # ts'"
proof (cases "is_json_whitespace c")
  case True
  with assms show ?thesis
    using space by (simp add: is_json_whitespace_def)
next
  case ws: False
  show ?thesis
  proof (cases "c \<in> set [123, 125, 91, 93, 58, 44]")
    case True
    then consider "c = 123" | "c = 125" | "c = 91" | "c = 93" | "c = 58" | "c = 44"
      by auto
    then obtain t where t: "json_lexeme [c] t"
      "tokenise (c # cs) = map_option ((#) t) (tokenise cs)"
    proof cases
      case 1
      have "json_lexeme [c] TLBrace" unfolding 1 by (rule json_lexeme.intros)
      moreover have "tokenise (c # cs) = map_option ((#) TLBrace) (tokenise cs)"
        unfolding 1 by (rule tokenise_punctuation)
      ultimately show ?thesis by (rule that)
    next
      case 2
      have "json_lexeme [c] TRBrace" unfolding 2 by (rule json_lexeme.intros)
      moreover have "tokenise (c # cs) = map_option ((#) TRBrace) (tokenise cs)"
        unfolding 2 by (rule tokenise_punctuation)
      ultimately show ?thesis by (rule that)
    next
      case 3
      have "json_lexeme [c] TLBracket" unfolding 3 by (rule json_lexeme.intros)
      moreover have "tokenise (c # cs) = map_option ((#) TLBracket) (tokenise cs)"
        unfolding 3 by (rule tokenise_punctuation)
      ultimately show ?thesis by (rule that)
    next
      case 4
      have "json_lexeme [c] TRBracket" unfolding 4 by (rule json_lexeme.intros)
      moreover have "tokenise (c # cs) = map_option ((#) TRBracket) (tokenise cs)"
        unfolding 4 by (rule tokenise_punctuation)
      ultimately show ?thesis by (rule that)
    next
      case 5
      have "json_lexeme [c] TColon" unfolding 5 by (rule json_lexeme.intros)
      moreover have "tokenise (c # cs) = map_option ((#) TColon) (tokenise cs)"
        unfolding 5 by (rule tokenise_punctuation)
      ultimately show ?thesis by (rule that)
    next
      case 6
      have "json_lexeme [c] TComma" unfolding 6 by (rule json_lexeme.intros)
      moreover have "tokenise (c # cs) = map_option ((#) TComma) (tokenise cs)"
        unfolding 6 by (rule tokenise_punctuation)
      ultimately show ?thesis by (rule that)
    qed
    from assms have "map_option ((#) t) (tokenise cs) = Some ts"
      unfolding t(2) .
    then obtain ts' where "tokenise cs = Some ts'" "ts = t # ts'"
      by auto
    with t(1) show ?thesis by (rule punctuation)
  next
    case p: False
    show ?thesis
    proof (cases "c = 34")
      case True
      with ws p assms obtain v r ts' where "json_string_chars cs = Some (v, r)"
        "tokenise r = Some ts'" "ts = TString v # ts'"
        by (auto split: option.splits)
      with True show ?thesis by (rule string)
    next
      case q: False
      have lit: thesis
        if "c # cs = l @ drop n cs" "json_lexeme l t"
          "map_option ((#) t) (tokenise (drop n cs)) = Some ts" for l t n
      proof -
        from that(3) obtain ts' where "tokenise (drop n cs) = Some ts'" "ts = t # ts'"
          by auto
        with that(1,2) show thesis using literal by blast
      qed
      have app: "c # cs = (c # take n cs) @ drop n cs" for n by simp
      show ?thesis
      proof (cases "c = 116 \<and> take 3 cs = js ''rue''")
        case True
        then have "c # take 3 cs = js ''true''" by (simp add: js_def)
        with app [of 3] have "c # cs = js ''true'' @ drop 3 cs"
          by (simp add: js_def)
        moreover have "map_option ((#) TTrue) (tokenise (drop 3 cs)) = Some ts"
          using True ws p q assms by (simp add: js_def)
        ultimately show ?thesis
          using lit json_lexeme.intros(9) by blast
      next
        case nt: False
        show ?thesis
        proof (cases "c = 102 \<and> take 4 cs = js ''alse''")
          case True
          then have "c # take 4 cs = js ''false''" by (simp add: js_def)
          with app [of 4] have "c # cs = js ''false'' @ drop 4 cs"
            by (simp add: js_def)
          moreover have "map_option ((#) TFalse) (tokenise (drop 4 cs)) = Some ts"
            using True ws p q nt assms by (simp add: js_def)
          ultimately show ?thesis
            using lit json_lexeme.intros(10) by blast
        next
          case nf: False
          show ?thesis
          proof (cases "c = 110 \<and> take 3 cs = js ''ull''")
            case True
            then have "c # take 3 cs = js ''null''" by (simp add: js_def)
            with app [of 3] have "c # cs = js ''null'' @ drop 3 cs"
              by (simp add: js_def)
            moreover have "map_option ((#) TNull) (tokenise (drop 3 cs)) = Some ts"
              using True ws p q nt nf assms by (simp add: js_def)
            ultimately show ?thesis
              using lit json_lexeme.intros(11) by blast
          next
            case nn: False
            with ws p q nt nf assms obtain v r ts' where "json_number (c # cs) = Some (v, r)"
              "tokenise r = Some ts'" "ts = TNumber v # ts'"
              by (auto split: if_splits option.splits)
            then show ?thesis by (rule number)
          qed
        qed
      qed
    qed
  qed
qed

lemma tokenise_lexes: "tokenise s = Some ts \<Longrightarrow> json_lexes s ts"
proof (induction "length s" arbitrary: s ts rule: less_induct)
  case less
  show ?case
  proof (cases s)
    case Nil
    with less.prems show ?thesis by (simp add: lex_end)
  next
    case (Cons c cs)
    from less.prems have "tokenise (c # cs) = Some ts" by (simp add: Cons)
    then show ?thesis
    proof (cases rule: tokenise_cases)
      case space
      from less.hyps [OF _ space(2)] have "json_lexes cs ts" by (simp add: Cons)
      with space(1) show ?thesis unfolding Cons by (rule lex_space)
    next
      case (punctuation t ts')
      from less.hyps [OF _ punctuation(2)] have "json_lexes cs ts'" by (simp add: Cons)
      with punctuation(1) have "json_lexes ([c] @ cs) (t # ts')" by (rule lex_token)
      then show ?thesis by (simp add: Cons punctuation(3))
    next
      case (string v r ts')
      from json_string_chars_body [OF string(2)] obtain b where b: "cs = b @ 34 # r" "string_body b"
        by blast
      then have "length r < length s" by (simp add: Cons)
      from less.hyps [OF this string(3)] have "json_lexes r ts'" .
      moreover from b(2) have "json_lexeme (34 # b @ [34]) (TString v)"
        by (rule json_lexeme.intros)
      ultimately have "json_lexes ((34 # b @ [34]) @ r) (TString v # ts')" by (rule lex_token [rotated])
      then show ?thesis by (simp add: Cons string b(1))
    next
      case (literal l t n ts')
      have "length (drop n cs) < length s" by (simp add: Cons)
      from less.hyps [OF this literal(3)] have "json_lexes (drop n cs) ts'" .
      with literal(1) have "json_lexes (l @ drop n cs) (t # ts')" by (rule lex_token)
      then show ?thesis using literal(2,4) by (simp add: Cons)
    next
      case (number v r ts')
      from json_number_literal [OF number(1)] obtain l where l: "c # cs = l @ r" "number_literal l"
        by blast
      from json_number_shorter [OF number(1)] have "length r < length s" by (simp add: Cons)
      from less.hyps [OF this number(2)] have "json_lexes r ts'" .
      moreover from l(2) have "json_lexeme l (TNumber v)" by (rule json_lexeme.intros)
      ultimately have "json_lexes (l @ r) (TNumber v # ts')" by (rule lex_token [rotated])
      then show ?thesis using l(1) by (simp add: Cons number(3))
    qed
  qed
qed

text \<open>
  The automaton.  With the stack \<open>st\<close>, \<open>expecting st c\<close> says that the tokens \<open>c\<close> read so far
  end where a value of the innermost open array or object is to start.
\<close>

inductive expecting :: "json_frame list \<Rightarrow> json_token list \<Rightarrow> bool" where
  at_top: "expecting [] []"
| first_element: "expecting st pre \<Longrightarrow> expecting (FArray vs # st) (pre @ [TLBracket])"
| next_element:
    "expecting st pre \<Longrightarrow> json_elements es
       \<Longrightarrow> expecting (FArray vs # st) (pre @ TLBracket # es @ [TComma])"
| first_member:
    "expecting st pre \<Longrightarrow> expecting (FMember ps k # st) (pre @ [TLBrace, TString k', TColon])"
| next_member:
    "expecting st pre \<Longrightarrow> json_members ms
       \<Longrightarrow> expecting (FMember ps k # st) (pre @ TLBrace # ms @ [TComma, TString k', TColon])"

inductive parsed :: "json_mode \<times> json_frame list \<Rightarrow> json_token list \<Rightarrow> bool" where
  p_value: "expecting st c \<Longrightarrow> parsed (MValue, st) c"
| p_value_or_close: "expecting st pre \<Longrightarrow> parsed (MValueOrClose, FArray vs # st) (pre @ [TLBracket])"
| p_after_element:
    "expecting st pre \<Longrightarrow> json_elements es
       \<Longrightarrow> parsed (MAfterValue, FArray vs # st) (pre @ TLBracket # es)"
| p_after_member:
    "expecting st pre \<Longrightarrow> json_members ms
       \<Longrightarrow> parsed (MAfterValue, FObject ps # st) (pre @ TLBrace # ms)"
| p_key_or_close: "expecting st pre \<Longrightarrow> parsed (MKeyOrClose, FObject ps # st) (pre @ [TLBrace])"
| p_key:
    "expecting st pre \<Longrightarrow> json_members ms
       \<Longrightarrow> parsed (MKey, FObject ps # st) (pre @ TLBrace # ms @ [TComma])"
| p_colon_first:
    "expecting st pre \<Longrightarrow> parsed (MColon k, FObject ps # st) (pre @ [TLBrace, TString k'])"
| p_colon_next:
    "expecting st pre \<Longrightarrow> json_members ms
       \<Longrightarrow> parsed (MColon k, FObject ps # st) (pre @ TLBrace # ms @ [TComma, TString k'])"
| p_done: "json_value c \<Longrightarrow> parsed (MDone v, []) c"

lemma json_deliver_parsed:
  assumes "expecting st pre" "json_value v" "json_deliver x st = Some q"
  shows "parsed q (pre @ v)"
  using assms
proof (cases rule: expecting.cases)
  case at_top
  with assms(3) p_done [OF assms(2), of x] show ?thesis by auto
next
  case (first_element st' pre' vs)
  from p_after_element [OF first_element(3) one_element [OF assms(2)], of "vs @ [x]"]
  show ?thesis using assms(3) first_element(1,2) by simp
next
  case (next_element st' pre' es vs)
  from p_after_element [OF next_element(3) more_elements [OF next_element(4) assms(2)], of "vs @ [x]"]
  show ?thesis using assms(3) next_element(1,2) by simp
next
  case (first_member st' pre' ps k k')
  from p_after_member [OF first_member(3) one_member [OF assms(2)], of "obj_put ps k x" k']
  show ?thesis using assms(3) first_member(1,2) by simp
next
  case (next_member st' pre' ms ps k k')
  from p_after_member [OF next_member(3) more_members [OF next_member(4) assms(2)],
      of "obj_put ps k x" k']
  show ?thesis using assms(3) next_member(1,2) by simp
qed

lemma json_start_value_parsed:
  assumes "expecting st pre" "json_start_value t st = Some q"
  shows "parsed q (pre @ [t])"
proof (cases t)
  case TLBrace
  with assms(2) p_key_or_close [OF assms(1), of "[]"] show ?thesis by simp
next
  case TLBracket
  with assms(2) p_value_or_close [OF assms(1), of "[]"] show ?thesis by simp
next
  case (TString s)
  with assms(2) json_deliver_parsed [OF assms(1) value_string [of s], of "JStr s" q]
  show ?thesis by simp
next
  case (TNumber n)
  with assms(2) json_deliver_parsed [OF assms(1) value_number [of n], of "JNum n" q]
  show ?thesis by simp
next
  case TTrue
  with assms(2) json_deliver_parsed [OF assms(1) value_true, of "JBool True" q]
  show ?thesis by simp
next
  case TFalse
  with assms(2) json_deliver_parsed [OF assms(1) value_false, of "JBool False" q]
  show ?thesis by simp
next
  case TNull
  with assms(2) json_deliver_parsed [OF assms(1) value_null, of JNull q]
  show ?thesis by simp
qed (use assms(2) in simp_all)

lemma json_step_parsed:
  assumes "parsed q c" "json_step q t = Some q'"
  shows "parsed q' (c @ [t])"
  using assms(1)
proof (cases rule: parsed.cases)
  case (p_value st)
  with assms(2) json_start_value_parsed [of st c t q'] show ?thesis by simp
next
  case (p_value_or_close st pre vs)
  show ?thesis
  proof (cases "t = TRBracket")
    case True
    with assms(2) p_value_or_close have "json_deliver (JArr vs) st = Some q'"
      by (simp add: close_array_def)
    from json_deliver_parsed [OF p_value_or_close(3) empty_array this]
    show ?thesis using p_value_or_close(2) True by simp
  next
    case False
    with assms(2) p_value_or_close have "json_start_value t (FArray vs # st) = Some q'" by simp
    from json_start_value_parsed [OF first_element [OF p_value_or_close(3)] this]
    show ?thesis using p_value_or_close(2) by simp
  qed
next
  case (p_after_element st pre es vs)
  consider "t = TComma" "q' = (MValue, FArray vs # st)"
    | "t = TRBracket" "json_deliver (JArr vs) st = Some q'"
    using assms(2) p_after_element(1)
    by (cases t) (simp_all add: close_array_def close_object_def)
  then show ?thesis
  proof cases
    case 1
    from p_value [OF next_element [OF p_after_element(3,4), of vs]]
    show ?thesis using 1 p_after_element(2) by simp
  next
    case 2
    from json_deliver_parsed [OF p_after_element(3) array [OF p_after_element(4)] 2(2)]
    show ?thesis using 2(1) p_after_element(2) by simp
  qed
next
  case (p_after_member st pre ms ps)
  consider "t = TComma" "q' = (MKey, FObject ps # st)"
    | "t = TRBrace" "json_deliver (JObj ps) st = Some q'"
    using assms(2) p_after_member(1)
    by (cases t) (simp_all add: close_array_def close_object_def)
  then show ?thesis
  proof cases
    case 1
    from p_key [OF p_after_member(3,4), of ps]
    show ?thesis using 1 p_after_member(2) by simp
  next
    case 2
    from json_deliver_parsed [OF p_after_member(3) object [OF p_after_member(4)] 2(2)]
    show ?thesis using 2(1) p_after_member(2) by simp
  qed
next
  case (p_key_or_close st pre ps)
  consider "t = TRBrace" "json_deliver (JObj ps) st = Some q'"
    | k where "t = TString k" "q' = (MColon k, FObject ps # st)"
    using assms(2) p_key_or_close(1)
    by (cases t) (simp_all add: close_object_def)
  then show ?thesis
  proof cases
    case 1
    from json_deliver_parsed [OF p_key_or_close(3) empty_object 1(2)]
    show ?thesis using 1(1) p_key_or_close(2) by simp
  next
    case 2
    from p_colon_first [OF p_key_or_close(3), of k ps k]
    show ?thesis using 2 p_key_or_close(2) by simp
  qed
next
  case (p_key st pre ms ps)
  from assms(2) p_key(1) obtain k where k: "t = TString k" "q' = (MColon k, FObject ps # st)"
    by (cases t) simp_all
  from p_colon_next [OF p_key(3,4), of k ps k]
  show ?thesis using k p_key(2) by simp
next
  case (p_colon_first st pre k ps k')
  from assms(2) p_colon_first(1) have t: "t = TColon" "q' = (MValue, FMember ps k # st)"
    by (cases t; simp)+
  from p_value [OF first_member [OF p_colon_first(3), of ps k k']]
  show ?thesis using t p_colon_first(2) by simp
next
  case (p_colon_next st pre ms k ps k')
  from assms(2) p_colon_next(1) have t: "t = TColon" "q' = (MValue, FMember ps k # st)"
    by (cases t; simp)+
  from p_value [OF next_member [OF p_colon_next(3,4), of ps k k']]
  show ?thesis using t p_colon_next(2) by simp
next
  case (p_done v)
  with assms(2) show ?thesis by simp
qed

lemma json_run_parsed:
  "parsed q c \<Longrightarrow> json_run q ts = Some q' \<Longrightarrow> parsed q' (c @ ts)"
proof (induction ts arbitrary: q c)
  case Nil
  then show ?case by simp
next
  case (Cons t ts)
  from Cons.prems(2) obtain q1 where q1: "json_step q t = Some q1" "json_run q1 ts = Some q'"
    by (auto split: option.splits)
  from Cons.IH [OF json_step_parsed [OF Cons.prems(1) q1(1)] q1(2)]
  show ?case by simp
qed

lemma json_run_value:
  assumes "json_run (MValue, []) ts = Some (MDone v, [])"
  shows "json_value ts"
proof -
  from json_run_parsed [OF p_value [OF at_top] assms] have "parsed (MDone v, []) ts" by simp
  then show ?thesis by (cases rule: parsed.cases) simp_all
qed

lemma JSON_parse_json_text:
  assumes "JSON_parse s = Inr v"
  shows "json_text s"
proof -
  from assms obtain ts where ts: "tokenise s = Some ts"
    by (auto simp: JSON_parse_def split: option.splits)
  with assms have "json_run (MValue, []) ts = Some (MDone v, [])"
    by (auto simp: JSON_parse_def split: option.splits prod.splits json_mode.splits list.splits)
  from tokenise_lexes [OF ts] json_run_value [OF this] show ?thesis
    unfolding json_text_def by blast
qed

subsection \<open>The tokens that decodeSDP rejects\<close>

lemma atob_error: "atob s = Inl e \<Longrightarrow> e = InvalidCharacterError"
  by (auto simp: atob_def Let_def split: if_splits)

lemma JSON_parse_error: "JSON_parse s = Inl e \<Longrightarrow> e = SyntaxError"
  by (auto simp: JSON_parse_def split: option.splits prod.splits json_mode.splits list.splits)

lemma map_sum_id_error: "map_sum id f r = Inl e \<Longrightarrow> r = Inl e"
  by (cases r) simp_all

lemma decodeURIComponent_error: "decodeURIComponent s = Inl e \<Longrightarrow> e = URIError"
proof (induction "length s" arbitrary: s rule: less_induct)
  case less
  show ?case
  proof (cases s)
    case Nil
    with less.prems show ?thesis by simp
  next
    case (Cons c cs)
    have ih: "decodeURIComponent t = Inl e \<Longrightarrow> e = URIError" if "length t \<le> length cs" for t
      using less.hyps [of t] that Cons by simp
    have ih': "map_sum id f (decodeURIComponent t) = Inl e \<Longrightarrow> e = URIError"
      if "length t \<le> length cs" for t and f :: "jsstring \<Rightarrow> jsstring"
      using ih [OF that] by (cases "decodeURIComponent t") simp_all
    have l1: "length (drop 2 cs) \<le> length cs" by simp
    have l2: "length (drop n (drop 2 cs)) \<le> length cs" for n by simp
    from less.prems show ?thesis
      unfolding Cons decodeURIComponent.simps Let_def
      using ih' [of cs] ih' [OF l1] ih' [OF l2]
      by (auto split: if_splits option.splits)
  qed
qed

text \<open>A token for which \<open>decodeSDP\<close> returns a value is validly formed.\<close>

lemma decodeSDP_value_validly_formed:
  assumes "decodeSDP token = Inr v"
  shows "validly_formed token"
proof -
  from assms obtain octets where o: "atob token = Inr octets"
    by (cases "atob token") (simp_all add: decodeSDP_def)
  with assms obtain payload where p: "decodeURIComponent (escape octets) = Inr payload"
    by (cases "decodeURIComponent (escape octets)") (simp_all add: decodeSDP_def)
  with assms o have j: "JSON_parse payload = Inr v"
    by (simp add: decodeSDP_def)
  from decodeURIComponent_escape_utf8 [OF atob_bytes [OF o] p]
  have u: "js_string payload" "well_formed_utf16 payload" "utf8_string payload = octets"
    by simp_all
  from atob_base64_spelling [OF o] u(3) have "base64_spelling (utf8_string payload) token"
    by simp
  with u(1,2) JSON_parse_json_text [OF j] show ?thesis
    unfolding validly_formed_def by blast
qed

text \<open>What \<open>encodeSDP\<close> returns is validly formed, and so is the token \<open>e30=\<close>.\<close>

lemma encodeSDP_validly_formed:
  assumes "js_string (desc_type d)" "js_string (desc_sdp d)" "encodeSDP d = Inr token"
  shows "validly_formed token"
proof -
  from decodeSDP_of_encodeSDP [OF assms(1,2)] assms(3)
  have "\<exists>v. decodeSDP token = Inr v" by auto
  then show ?thesis
    using decodeSDP_value_validly_formed by blast
qed

lemma example_empty_object_token: "decodeSDP (js ''e30='') = Inr (JObj [])"
  by code_simp

lemma example_bad_token: "atob (js ''{not-base64'') = Inl InvalidCharacterError"
  by code_simp

text \<open>
  The decoder is forgiving: the same payload without the padding, with white space, or with
  other spare bits in the last character.
\<close>

lemma example_forgiving_tokens:
  "decodeSDP (js ''e30'') = Inr (JObj [])"
  "decodeSDP (js ''e3 0='') = Inr (JObj [])"
  "decodeSDP (js ''e31='') = Inr (JObj [])"
  by code_simp+

lemma example_empty_object_token_validly_formed: "validly_formed (js ''e30='')"
  using example_empty_object_token by (rule decodeSDP_value_validly_formed)

lemma example_bad_token_not_validly_formed: "\<not> validly_formed (js ''{not-base64'')"
proof
  assume "validly_formed (js ''{not-base64'')"
  then obtain octets where "base64_spelling octets (js ''{not-base64'')"
    unfolding validly_formed_def by blast
  moreover have "(123::nat) \<in> set (js ''{not-base64'')" by (simp add: js_def)
  ultimately have "(123::nat) \<in> set [9, 10, 12, 13, 32] \<or> (123::nat) = 61 \<or> is_base64_char 123"
    by (rule base64_spelling_chars)
  then show False
    by (simp add: is_base64_char_def is_alpha_num_def)
qed

text \<open>
  C9, as stated, fails: the token \<open>e30=\<close> is the base64 form of \<open>{}\<close>, whose payload has
  neither \<open>type\<close> nor \<open>sdp\<close>, and \<open>decodeSDP\<close> returns it.
\<close>

theorem decodeSDP_shape_counterexample:
  "\<not> has_descriptor_shape (JObj []) \<and> decodeSDP (js ''e30='') = Inr (JObj [])"
  by (simp add: example_empty_object_token has_descriptor_shape_def)

text \<open>
  C9, amended.  For every token that is not validly formed under the encoding scheme, that
  is, not a base64 spelling (white space ignored, padding optional) of the UTF-8 octets of
  a JSON text, \<open>decodeSDP\<close> fails with a decode error, one of \<open>InvalidCharacterError\<close>,
  \<open>URIError\<close> and \<open>SyntaxError\<close>, and returns no value.  The shape of the payload is not
  looked at.
\<close>

theorem decodeSDP_rejects_malformed:
  assumes "\<not> validly_formed token"
  shows "decodeSDP token \<in> {Inl InvalidCharacterError, Inl URIError, Inl SyntaxError}"
proof (cases "decodeSDP token")
  case (Inr v)
  from decodeSDP_value_validly_formed [OF this] assms show ?thesis by simp
next
  case (Inl e)
  show ?thesis
  proof (cases "atob token")
    case a: (Inl e')
    from atob_error [OF a] a show ?thesis
      by (simp add: decodeSDP_def)
  next
    case o: (Inr octets)
    show ?thesis
    proof (cases "decodeURIComponent (escape octets)")
      case u: (Inl e')
      from decodeURIComponent_error [OF u] u o show ?thesis
        by (simp add: decodeSDP_def)
    next
      case p: (Inr payload)
      with o Inl have "JSON_parse payload = Inl e"
        by (simp add: decodeSDP_def)
      from JSON_parse_error [OF this] Inl show ?thesis by simp
    qed
  qed
qed

theorem decodeSDP_rejects_malformed_witness:
  "\<not> validly_formed (js ''{not-base64'')
   \<and> decodeSDP (js ''{not-base64'') \<in> {Inl InvalidCharacterError, Inl URIError, Inl SyntaxError}
   \<and> decodeSDP (js ''{not-base64'') = Inl InvalidCharacterError"
  using decodeSDP_rejects_malformed [OF example_bad_token_not_validly_formed]
    example_bad_token_not_validly_formed example_bad_token
  by (simp add: decodeSDP_def)

section \<open>game.js: the state and its snapshot\<close>

datatype game_mode = LOCAL | ONLINE_HOST | ONLINE_PEER

datatype phase = MENU | SETUP | REVEAL | CLUES | DEBATE | RESULTS

text \<open>The values of the \<open>Phase\<close> object are the names of its keys.\<close>

fun phase_string :: "phase \<Rightarrow> jsstring" where
  "phase_string MENU = js ''MENU''"
| "phase_string SETUP = js ''SETUP''"
| "phase_string REVEAL = js ''REVEAL''"
| "phase_string CLUES = js ''CLUES''"
| "phase_string DEBATE = js ''DEBATE''"
| "phase_string RESULTS = js ''RESULTS''"

record word_entry =
  word :: jsstring
  hint :: jsstring

record online_peer =
  peer_id :: jsstring
  peer_name :: jsvalue
  ready :: bool

text \<open>
  The object \<open>state\<close>.  Two of its fields are written with another name here: \<open>round\<close> is
  \<open>round_number\<close> and \<open>isHost\<close> is \<open>state_isHost\<close>; the fields \<open>_localIsImposter\<close>,
  \<open>_localWord\<close>, \<open>_localHint\<close> and \<open>_hostReady\<close> lose their underscore.
\<close>

record game_state =
  mode :: game_mode
  players :: "jsstring list"
  category :: jsstring
  currentWord :: "word_entry option"
  imposterIndex :: int
  currentPlayerIndex :: int
  isRoleRevealed :: bool
  currentPhase :: phase
  round_number :: int
  usedWords :: "jsstring list"
  cluePlayerIndex :: int
  startingPlayerIndex :: int
  timerSeconds :: int
  timerRunning :: bool
  localPlayerName :: jsstring
  state_isHost :: bool
  onlinePeers :: "online_peer list"
  localIsImposter :: bool
  localWord :: "jsstring option"
  localHint :: "jsstring option"
  hostReady :: bool

definition js_int :: "int \<Rightarrow> jsvalue" where
  "js_int n = JNum (Finite (of_int n))"

text \<open>
  \<^verbatim>\<open>
  export function serialiseForSync() {
      return {
          players:             state.players,
          category:            state.category,
          currentPhase:        state.currentPhase,
          round:               state.round,
          currentPlayerIndex:  state.currentPlayerIndex,
          cluePlayerIndex:     state.cluePlayerIndex,
          startingPlayerIndex: state.startingPlayerIndex,
          timerSeconds:        state.timerSeconds,
          timerRunning:        state.timerRunning,
      };
  }
  \<close>
\<close>

definition serialiseForSync :: "game_state \<Rightarrow> jsvalue" where
  "serialiseForSync state =
     JObj [(js ''players'', JArr (map JStr (players state))),
           (js ''category'', JStr (category state)),
           (js ''currentPhase'', JStr (phase_string (currentPhase state))),
           (js ''round'', js_int (round_number state)),
           (js ''currentPlayerIndex'', js_int (currentPlayerIndex state)),
           (js ''cluePlayerIndex'', js_int (cluePlayerIndex state)),
           (js ''startingPlayerIndex'', js_int (startingPlayerIndex state)),
           (js ''timerSeconds'', js_int (timerSeconds state)),
           (js ''timerRunning'', JBool (timerRunning state))]"

text \<open>
  What the timer of \<open>startSyncLoop(getStateFn)\<close> does at each tick, \<open>s\<close> being the value
  of \<open>getStateFn()\<close>; \<open>app.js\<close> starts the loop with \<open>() => serialiseForSync()\<close>.
  \<^verbatim>\<open>
  const s = getStateFn();
  this.broadcast({ type: 'sync', version: PROTOCOL_VERSION, state: s,
                   checksum: checksum(JSON.stringify(s)) });
  \<close>
  \<open>JSON.stringify\<close> of an arbitrary value is a parameter.
\<close>

definition sync_tick :: "(jsvalue \<Rightarrow> jsstring) \<Rightarrow> jsvalue \<Rightarrow> network_manager \<Rightarrow> network_manager" where
  "sync_tick stringify s nm =
     broadcast
       (JObj [(js ''type'', JStr (js ''sync'')),
              (js ''version'', js_int PROTOCOL_VERSION),
              (js ''state'', s),
              (js ''checksum'', JStr (checksum (stringify s)))]) nm"

text \<open>Two states agree on the nine fields of the snapshot.\<close>

definition same_public_fields :: "game_state \<Rightarrow> game_state \<Rightarrow> bool" where
  "same_public_fields a b =
     (players a = players b \<and> category a = category b \<and> currentPhase a = currentPhase b
      \<and> round_number a = round_number b \<and> currentPlayerIndex a = currentPlayerIndex b
      \<and> cluePlayerIndex a = cluePlayerIndex b \<and> startingPlayerIndex a = startingPlayerIndex b
      \<and> timerSeconds a = timerSeconds b \<and> timerRunning a = timerRunning b)"

text \<open>
  C10.  Two game states that agree on the nine fields \<open>players\<close>, \<open>category\<close>,
  \<open>currentPhase\<close>, \<open>round\<close>, \<open>currentPlayerIndex\<close>, \<open>cluePlayerIndex\<close>,
  \<open>startingPlayerIndex\<close>, \<open>timerSeconds\<close> and \<open>timerRunning\<close> have the same snapshot,
  whatever \<open>imposterIndex\<close>, \<open>currentWord\<close> and the role fields of the local player are in
  each; so the tick of the sync loop leaves every channel of the host with the same
  messages for both.
\<close>

theorem serialiseForSync_hides_secrets:
  assumes "same_public_fields a b"
  shows "serialiseForSync a = serialiseForSync b
         \<and> sync_tick stringify (serialiseForSync a) nm = sync_tick stringify (serialiseForSync b) nm"
proof -
  from assms have "serialiseForSync a = serialiseForSync b"
    by (simp add: same_public_fields_def serialiseForSync_def)
  then show ?thesis by simp
qed

text \<open>An example: the same round seen with two different imposters and secret words.\<close>

definition example_round :: game_state where
  "example_round =
     \<lparr>mode = ONLINE_HOST, players = [js ''Ann'', js ''Bob'', js ''Cy''],
      category = js ''household'',
      currentWord = Some \<lparr>word = js ''kettle'', hint = js ''kitchen''\<rparr>, imposterIndex = 0,
      currentPlayerIndex = 0, isRoleRevealed = False, currentPhase = CLUES, round_number = 1,
      usedWords = [js ''kettle''], cluePlayerIndex = 1, startingPlayerIndex = 2,
      timerSeconds = 12, timerRunning = True, localPlayerName = js ''Ann'', state_isHost = True,
      onlinePeers = [], localIsImposter = True, localWord = None,
      localHint = Some (js ''kitchen''), hostReady = False\<rparr>"

definition example_round_other_secret :: game_state where
  "example_round_other_secret =
     example_round\<lparr>currentWord := Some \<lparr>word = js ''ladder'', hint = js ''garage''\<rparr>,
       imposterIndex := 2, usedWords := [js ''ladder''], localIsImposter := False,
       localWord := Some (js ''ladder''), localHint := None\<rparr>"

theorem serialiseForSync_hides_secrets_witness:
  "same_public_fields example_round example_round_other_secret
   \<and> imposterIndex example_round \<noteq> imposterIndex example_round_other_secret
   \<and> currentWord example_round \<noteq> currentWord example_round_other_secret
   \<and> serialiseForSync example_round = serialiseForSync example_round_other_secret
   \<and> sync_tick (\<lambda>v. []) (serialiseForSync example_round) example_connected_host
       = sync_tick (\<lambda>v. []) (serialiseForSync example_round_other_secret) example_connected_host"
proof -
  have s: "same_public_fields example_round example_round_other_secret"
    by (simp add: same_public_fields_def example_round_other_secret_def)
  have d: "imposterIndex example_round \<noteq> imposterIndex example_round_other_secret"
    "currentWord example_round \<noteq> currentWord example_round_other_secret"
    by (simp_all add: example_round_other_secret_def example_round_def js_def)
  from serialiseForSync_hides_secrets [OF s, of "\<lambda>v. []" example_connected_host] s d
  show ?thesis by simp
qed

end
